theory Spec2Isabelle
  imports Complex_Main "HOL-Library.Log_Nat" "HOL-Library.Multiset"
begin

chapter \<open>The bfhl API: numeric kernels, rate limiter, sanitizer and dispatcher\<close>

text \<open>
  A shallow embedding of \<^verbatim>\<open>src/index.js\<close>. Every definition of the first part follows
  one function or one middleware of the source, or one built-in of the runtime that the
  source calls (the arithmetic of numbers, regular expressions, \<^verbatim>\<open>JSON.parse\<close>,
  \<^verbatim>\<open>JSON.stringify\<close>); the second part proves the properties.
\<close>


section \<open>Strings and errors\<close>

text \<open>
  A JavaScript string is a sequence of UTF-16 code units. A code unit is modelled as an
  \<^typ>\<open>int\<close> in \<open>[0, 65535]\<close>, a string as the list of its code units, and \<open>str\<close> turns
  a literal of the source into one.
\<close>

type_synonym jstring = "int list"

definition str :: "string \<Rightarrow> jstring" where
  "str s = map of_char s"

text \<open>
  What the program throws: the \<^verbatim>\<open>TypeError\<close> of the runtime (\<^verbatim>\<open>reduce\<close> of an
  empty array) and \<^verbatim>\<open>new Error(message)\<close>.
\<close>

datatype exn = TypeError | Error jstring


section \<open>JavaScript numbers\<close>

text \<open>
  Every number of the program is an IEEE-754 double. The numbers the kernels compute with are
  integer-valued, so they are modelled as \<^typ>\<open>int\<close>, and the rounding of the arithmetic is
  written out: \<open>js_round x\<close> is the double nearest to the integer \<open>x\<close> (53 significant bits,
  ties to the even significand). Integers of magnitude up to \<open>2 ^ 53\<close> are their own
  rounding. The model covers finite results: a result of magnitude \<open>2 ^ 1024 - 2 ^ 970\<close> or
  more is \<^verbatim>\<open>Infinity\<close> in JavaScript and is outside of it.
\<close>

definition js_round :: "int \<Rightarrow> int" where
  "js_round x =
     (if abs x < 2 ^ 53 then x
      else let u = 2 ^ nat (bitlen (abs x) - 53);
               q = abs x div u;
               r = abs x mod u;
               q' = (if u < 2 * r \<or> (2 * r = u \<and> odd q) then q + 1 else q)
           in sgn x * (q' * u))"

text \<open>\<^verbatim>\<open>a + b\<close> and \<^verbatim>\<open>a * b\<close>: the exact result, rounded once.\<close>

definition js_add :: "int \<Rightarrow> int \<Rightarrow> int" where
  "js_add a b = js_round (a + b)"

definition js_mul :: "int \<Rightarrow> int \<Rightarrow> int" where
  "js_mul a b = js_round (a * b)"

text \<open>
  \<^verbatim>\<open>a % b\<close> for \<open>b \<noteq> 0\<close>: the remainder of the truncating division, with the sign of the
  dividend. It is exact on doubles. (\<^verbatim>\<open>a % 0\<close> is \<^verbatim>\<open>NaN\<close>; no call of the program
  reaches it.)
\<close>

definition js_rem :: "int \<Rightarrow> int \<Rightarrow> int" where
  "js_rem a b = sgn a * (abs a mod abs b)"



section \<open>Numeric kernels\<close>

subsection \<open>\<^verbatim>\<open>fibSeries\<close>\<close>

text \<open>
  \<^verbatim>\<open>while (res.length < n) { const l = res.length; res.push(res[l - 1] + res[l - 2]); }\<close>
  The loop is entered with two elements, so both reads are in range.
\<close>

function fib_loop :: "int \<Rightarrow> int list \<Rightarrow> int list" where
  "fib_loop n res =
     (if int (length res) < n
      then fib_loop n (res @ [js_add (res ! (length res - 1)) (res ! (length res - 2))])
      else res)"
  by pat_completeness auto
termination
  by (relation "measure (\<lambda>(n, res). nat (n - int (length res)))") auto

definition fibSeries :: "int \<Rightarrow> int list" where
  "fibSeries n =
     (if n \<le> 0 then []
      else if n = 1 then [0]
      else fib_loop n [0, 1])"

text \<open>The sequence 0, 1, 1, 2, 3, ... itself, in exact integers.\<close>

fun fib_pair :: "nat \<Rightarrow> int \<times> int" where
  "fib_pair 0 = (0, 1)"
| "fib_pair (Suc k) = (case fib_pair k of (a, b) \<Rightarrow> (b, a + b))"

definition fib_exact :: "nat \<Rightarrow> int" where
  "fib_exact k = fst (fib_pair k)"

subsection \<open>\<^verbatim>\<open>gcd\<close>, \<^verbatim>\<open>gcdArray\<close>, \<^verbatim>\<open>lcm2\<close>, \<^verbatim>\<open>lcmArray\<close>\<close>

text \<open>
  \<^verbatim>\<open>a = Math.abs(a); b = Math.abs(b); if (!b) return a; return gcd(b, a % b);\<close>
\<close>

function (domintros) gcd_js :: "int \<Rightarrow> int \<Rightarrow> int" where
  "gcd_js a b = (if abs b = 0 then abs a else gcd_js (abs b) (js_rem (abs a) (abs b)))"
  by pat_completeness auto
termination gcd_js
  by (relation "measure (\<lambda>(a, b). nat (abs b))")
    (auto simp add: js_rem_def abs_mult abs_sgn_eq)

text \<open>
  \<^verbatim>\<open>arr.reduce((acc, v) => gcd(acc, v))\<close>: no initial value, so the first element starts
  the accumulator, a one-element array is returned as it is, and the empty array throws
  a \<^verbatim>\<open>TypeError\<close>.
\<close>

definition gcdArray :: "int list \<Rightarrow> exn + int" where
  "gcdArray arr = (case arr of [] \<Rightarrow> Inl TypeError | x # xs \<Rightarrow> Inr (foldl gcd_js x xs))"

text \<open>
  \<^verbatim>\<open>if (a === 0 || b === 0) return 0; return Math.abs((a / gcd(a, b)) * b);\<close>
  The quotient is exact, since the divisor divides \<open>a\<close>; the product is rounded.
\<close>

definition lcm2 :: "int \<Rightarrow> int \<Rightarrow> int" where
  "lcm2 a b = (if a = 0 \<or> b = 0 then 0 else abs (js_mul (a div gcd_js a b) b))"

definition lcmArray :: "int list \<Rightarrow> exn + int" where
  "lcmArray arr = (case arr of [] \<Rightarrow> Inl TypeError | x # xs \<Rightarrow> Inr (foldl lcm2 x xs))"

subsection \<open>\<^verbatim>\<open>isPrimeNum\<close>\<close>

text \<open>
  The integer square root, by binary search on the bits of the result: the model's own
  arithmetic, used to state what \<^verbatim>\<open>Math.sqrt\<close> returns.
\<close>

fun isqrt_aux :: "nat \<Rightarrow> int \<Rightarrow> int \<Rightarrow> int" where
  "isqrt_aux 0 x r = r"
| "isqrt_aux (Suc n) x r =
     (if (r + 2 ^ n) * (r + 2 ^ n) \<le> x then isqrt_aux n x (r + 2 ^ n) else isqrt_aux n x r)"

definition isqrt :: "int \<Rightarrow> int" where
  "isqrt x = isqrt_aux (nat (bitlen x)) x 0"

text \<open>
  \<^verbatim>\<open>Math.floor(Math.sqrt(x))\<close> for an integer \<open>x > 0\<close>. \<^verbatim>\<open>Math.sqrt\<close> is the
  correctly rounded square root: with \<open>2 ^ e \<le> sqrt x < 2 ^ (e + 1)\<close> the result is the
  multiple \<open>m' * 2 ^ (e - 52)\<close> nearest to the root, ties to the even \<open>m'\<close>; a root of an
  integer lies halfway between two doubles only in the second branch. The rounding can
  reach the next integer: \<^verbatim>\<open>Math.sqrt(4503599761588224)\<close> is 67108865, while the root
  is below it. (For \<open>x \<le> 0\<close> the program never calls it.)
\<close>

definition js_sqrt_floor :: "int \<Rightarrow> int" where
  "js_sqrt_floor x =
     (if x \<le> 0 then 0
      else let e = bitlen (isqrt x) - 1 in
        if e \<le> 52 then
          let t = nat (52 - e);
              X = x * 4 ^ t;
              m = isqrt X;
              m' = (if m * m + m < X then m + 1 else m)
          in m' div 2 ^ t
        else
          let t = nat (e - 52);
              m = isqrt (x div 4 ^ t);
              h = (2 * m + 1) * (2 * m + 1) * 4 ^ (t - 1);
              m' = (if h < x \<or> (h = x \<and> odd m) then m + 1 else m)
          in m' * 2 ^ t)"

text \<open>\<^verbatim>\<open>for (let i = 3; i <= r; i += 2) if (x % i === 0) return false; return true;\<close>\<close>

function prime_loop :: "int \<Rightarrow> int \<Rightarrow> int \<Rightarrow> bool" where
  "prime_loop x r i =
     (if i \<le> r then (if js_rem x i = 0 then False else prime_loop x r (i + 2)) else True)"
  by pat_completeness auto
termination
  by (relation "measure (\<lambda>(x, r, i). nat (r + 1 - i))") auto

definition isPrimeNum :: "int \<Rightarrow> bool" where
  "isPrimeNum x =
     (if x \<le> 1 then False
      else if x \<le> 3 then True
      else if js_rem x 2 = 0 then False
      else prime_loop x (js_sqrt_floor x) 3)"

text \<open>Primality as the specification means it: no divisor strictly between 1 and \<open>x\<close>.\<close>

definition is_prime :: "int \<Rightarrow> bool" where
  "is_prime x \<longleftrightarrow> 1 < x \<and> (\<forall>d. 1 < d \<and> d < x \<longrightarrow> \<not> d dvd x)"


section \<open>JSON values and the response envelope\<close>

text \<open>
  The values of a parsed JSON text: a request body and what \<^verbatim>\<open>JSON.parse\<close> returns. An
  object is the list of its properties in creation order, with distinct keys. A number is
  a rational: in a request body the value of the double, in a result of \<open>JSON_parse\<close> the
  value its literal denotes (the runtime rounds it to a double, which shows only when the
  number is printed: see \<open>number_text\<close>). \<^verbatim>\<open>Infinity\<close>, the value of a literal such as
  \<^verbatim>\<open>1e999\<close>, is outside of the model.
\<close>

datatype json =
    Null
  | Bool bool
  | Num rat
  | Str jstring
  | Arr "json list"
  | Obj "(jstring \<times> json) list"

text \<open>
  What a handler sends: the HTTP status and the envelope
  \<^verbatim>\<open>{ is_success, official_email, data?, error? }\<close>.
\<close>

record response =
  status :: nat
  is_success :: bool
  official_email :: "jstring option"
  data :: "json option"
  error :: "jstring option"

text \<open>
  An environment variable is a string or \<^verbatim>\<open>undefined\<close>; the empty string is falsy too.
  \<open>or_null\<close> is \<^verbatim>\<open>OFFICIAL_EMAIL || null\<close>.
\<close>

definition truthy_string :: "jstring option \<Rightarrow> bool" where
  "truthy_string s = (case s of None \<Rightarrow> False | Some t \<Rightarrow> t \<noteq> [])"

definition or_null :: "jstring option \<Rightarrow> jstring option" where
  "or_null s = (if truthy_string s then s else None)"


section \<open>The rate limiter\<close>

text \<open>
  \<^verbatim>\<open>rateMap\<close> maps a client address to \<^verbatim>\<open>{ count, start }\<close>. The times are those of
  \<^verbatim>\<open>Date.now()\<close>, integers of milliseconds; they and the counts stay far below \<open>2 ^ 53\<close>,
  where the arithmetic of doubles is exact.
\<close>

record entry =
  count :: int
  start :: int

type_synonym rateMap = "jstring \<rightharpoonup> entry"

definition RATE_LIMIT :: int where
  "RATE_LIMIT = 120"

definition RATE_WINDOW_MS :: int where
  "RATE_WINDOW_MS = 60 * 1000"

text \<open>
  What the middleware reads of a request: \<^verbatim>\<open>req.ip\<close>, and \<^verbatim>\<open>req.connection\<close> with its
  \<^verbatim>\<open>remoteAddress\<close> (\<open>None\<close> when \<^verbatim>\<open>req.connection\<close> is undefined).
\<close>

record request =
  ip :: "jstring option"
  connection :: "jstring option option"

text \<open>
  \<^verbatim>\<open>req.ip || req.connection.remoteAddress || 'unknown'\<close>; reading \<^verbatim>\<open>remoteAddress\<close> of
  an undefined connection throws.
\<close>

definition client_ip :: "request \<Rightarrow> exn + jstring" where
  "client_ip req =
     (if truthy_string (ip req) then Inr (the (ip req))
      else case connection req of
          None \<Rightarrow> Inl TypeError
        | Some remoteAddress \<Rightarrow>
            if truthy_string remoteAddress then Inr (the remoteAddress) else Inr (str ''unknown''))"

definition too_many_requests :: "jstring option \<Rightarrow> response" where
  "too_many_requests email =
     \<lparr>status = 429, is_success = False, official_email = or_null email,
      data = None, error = Some (str ''Too many requests'')\<rparr>"

text \<open>
  The middleware, from the map before the request and the time of the request to the map
  after it and the response: \<open>None\<close> is \<^verbatim>\<open>next()\<close>. An exception is swallowed and the
  request goes on.
\<close>

definition rate_limiter :: "jstring option \<Rightarrow> rateMap \<Rightarrow> request \<Rightarrow> int \<Rightarrow> rateMap \<times> response option" where
  "rate_limiter email m req now =
     (case client_ip req of
        Inl err \<Rightarrow> (m, None)
      | Inr addr \<Rightarrow>
          let e = (case m addr of Some e \<Rightarrow> e | None \<Rightarrow> \<lparr>count = 0, start = now\<rparr>);
              e' = (if now - start e > RATE_WINDOW_MS then \<lparr>count = 1, start = now\<rparr>
                    else e\<lparr>count := count e + 1\<rparr>);
              m' = m(addr \<mapsto> e')
          in if count e' > RATE_LIMIT then (m', Some (too_many_requests email)) else (m', None))"

text \<open>
  The requests of a run, each with its arrival time, pass the middleware one after the
  other (it is synchronous): the map after all of them and the response to each.
\<close>

fun serve :: "jstring option \<Rightarrow> rateMap \<Rightarrow> (request \<times> int) list \<Rightarrow> rateMap \<times> response option list" where
  "serve email m [] = (m, [])"
| "serve email m ((req, now) # rest) =
     (case rate_limiter email m req now of
        (m', r) \<Rightarrow> (case serve email m' rest of (m'', rs) \<Rightarrow> (m'', r # rs)))"

text \<open>How many requests of a list come from an address.\<close>

definition requests_of :: "jstring \<Rightarrow> (request \<times> int) list \<Rightarrow> nat" where
  "requests_of addr reqs = length (filter (\<lambda>(req, now). client_ip req = Inr addr) reqs)"

text \<open>What the \<open>n\<close>-th request of a window receives.\<close>

definition verdict :: "jstring option \<Rightarrow> int \<Rightarrow> response option" where
  "verdict email n = (if n \<le> 120 then None else Some (too_many_requests email))"


section \<open>Regular expressions\<close>

text \<open>
  The regular expressions of the sanitizer are built from single characters, character
  classes, sequences, one capture group, the word boundary \<^verbatim>\<open>\b\<close> and quantifiers applied to
  a character or a class. This is the whole syntax the model has. A class is a list of
  code unit ranges, negated or not; the \<^verbatim>\<open>i\<close> flag is written out in the ranges (both
  cases of a letter), and \<^verbatim>\<open>.\<close> under the \<^verbatim>\<open>s\<close> flag and \<^verbatim>\<open>[\s\S]\<close> are the negated
  empty class.
\<close>

type_synonym charclass = "bool \<times> (int \<times> int) list"

definition in_class :: "charclass \<Rightarrow> int \<Rightarrow> bool" where
  "in_class cl c = ((\<exists>(lo, hi) \<in> set (snd cl). lo \<le> c \<and> c \<le> hi) \<noteq> fst cl)"

text \<open>
  \<open>Rep greedy lo hi cl\<close> is the class repeated \<open>lo\<close> to \<open>hi\<close> times (no upper bound for
  \<open>None\<close>), greedy (\<^verbatim>\<open>*\<close>, \<^verbatim>\<open>+\<close>, \<^verbatim>\<open>{2,}\<close>) or lazy (\<^verbatim>\<open>*?\<close>).
\<close>

datatype regex =
    Chars charclass
  | Rep bool nat "nat option" charclass
  | Then regex regex
  | Group regex
  | WordBoundary

text \<open>A word character is one of \<^verbatim>\<open>[A-Za-z0-9_]\<close>; the ends of the text are not.\<close>

definition word_char :: "int option \<Rightarrow> bool" where
  "word_char c = (case c of None \<Rightarrow> False
     | Some x \<Rightarrow> (48 \<le> x \<and> x \<le> 57) \<or> (65 \<le> x \<and> x \<le> 90) \<or> x = 95 \<or> (97 \<le> x \<and> x \<le> 122))"

definition last_char :: "int option \<Rightarrow> jstring \<Rightarrow> int option" where
  "last_char prev c = (if c = [] then prev else Some (last c))"

definition head_char :: "jstring \<Rightarrow> int option" where
  "head_char s = (case s of [] \<Rightarrow> None | c # _ \<Rightarrow> Some c)"

text \<open>
  Backtracking, as a list: \<open>matches r prev s\<close> are the ways \<open>r\<close> matches at the start of
  \<open>s\<close>, where \<open>prev\<close> is the character before \<open>s\<close>, in the order in which a backtracking
  matcher tries them. Each is the text consumed and the text of the capture group. A greedy
  quantifier tries the longest run first, a lazy one the shortest.
\<close>

fun matches :: "regex \<Rightarrow> int option \<Rightarrow> jstring \<Rightarrow> (jstring \<times> jstring option) list" where
  "matches (Chars cl) prev s =
     (case s of [] \<Rightarrow> [] | c # _ \<Rightarrow> if in_class cl c then [([c], None)] else [])"
| "matches (Rep greedy lo hi cl) prev s =
     (let n = length (takeWhile (in_class cl) s);
          n' = (case hi of None \<Rightarrow> n | Some h \<Rightarrow> min n h)
      in if n' < lo then []
         else map (\<lambda>k. (take k s, None)) (if greedy then rev [lo..<Suc n'] else [lo..<Suc n']))"
| "matches (Then a b) prev s =
     concat (map (\<lambda>(c1, g1).
        map (\<lambda>(c2, g2). (c1 @ c2, case g2 of None \<Rightarrow> g1 | Some g \<Rightarrow> Some g))
          (matches b (last_char prev c1) (drop (length c1) s)))
       (matches a prev s))"
| "matches (Group r) prev s = map (\<lambda>(c, g). (c, Some c)) (matches r prev s)"
| "matches WordBoundary prev s =
     (if word_char prev \<noteq> word_char (head_char s) then [([], None)] else [])"

text \<open>
  \<^verbatim>\<open>exec\<close>: the leftmost position where the expression matches, with the first match there.
  The result is the text skipped before the match, the match and its capture group.
\<close>

fun search :: "regex \<Rightarrow> int option \<Rightarrow> jstring \<Rightarrow> (jstring \<times> jstring \<times> jstring option) option" where
  "search r prev [] = (case matches r prev [] of [] \<Rightarrow> None | (c, g) # _ \<Rightarrow> Some ([], c, g))"
| "search r prev (x # xs) =
     (case matches r prev (x # xs) of
        (c, g) # _ \<Rightarrow> Some ([], c, g)
      | [] \<Rightarrow> (case search r (Some x) xs of
                 None \<Rightarrow> None
               | Some (skipped, c, g) \<Rightarrow> Some (x # skipped, c, g)))"

text \<open>A match is a prefix of the text it was found in: what the replacement loop is measured by.\<close>

lemma matches_prefix:
  "(c, g) \<in> set (matches r prev s) \<Longrightarrow> take (length c) s = c \<and> length c \<le> length s"
proof (induction r arbitrary: prev s c g)
  case (Chars cl)
  then show ?case by (cases s) (auto split: if_splits)
next
  case (Rep greedy lo hi cl)
  let ?n = "length (takeWhile (in_class cl) s)"
  have "?n \<le> length s" by (rule length_takeWhile_le)
  with Rep show ?case
    by (auto simp add: Let_def min_def split: if_splits option.splits)
next
  case (Then a b)
  from Then.prems obtain c1 g1 c2 g2 where
    a: "(c1, g1) \<in> set (matches a prev s)" and
    b: "(c2, g2) \<in> set (matches b (last_char prev c1) (drop (length c1) s))" and
    c: "c = c1 @ c2"
    by auto
  from Then.IH(1) [OF a] have 1: "take (length c1) s = c1" "length c1 \<le> length s" by simp_all
  from Then.IH(2) [OF b] have 2: "take (length c2) (drop (length c1) s) = c2"
    "length c2 \<le> length s - length c1" by simp_all
  have "take (length c1 + length c2) s = c1 @ c2"
    using 1 2 by (simp add: take_add)
  then show ?case using 1 2 c by simp
next
  case (Group r)
  then show ?case by auto
next
  case WordBoundary
  then show ?case by (auto split: if_splits)
qed

lemma search_prefix:
  "search r prev s = Some (skipped, c, g) \<Longrightarrow>
   take (length skipped + length c) s = skipped @ c \<and> length skipped + length c \<le> length s"
proof (induction s arbitrary: prev skipped)
  case Nil
  then obtain m where "matches r prev [] = (c, g) # m" "skipped = []"
    by (auto split: list.splits)
  then have "(c, g) \<in> set (matches r prev [])" by simp
  from matches_prefix [OF this] show ?case using \<open>skipped = []\<close> by simp
next
  case (Cons x xs)
  show ?case
  proof (cases "matches r prev (x # xs)")
    case Nil
    with Cons.prems obtain sk where sk: "search r (Some x) xs = Some (sk, c, g)" "skipped = x # sk"
      by (auto split: option.splits)
    from Cons.IH [OF sk(1)] show ?thesis using sk(2) by simp
  next
    case (Cons a m)
    with Cons.prems have "a = (c, g)" "skipped = []" by (auto split: prod.splits)
    then have "(c, g) \<in> set (matches r prev (x # xs))" using Cons by simp
    from matches_prefix [OF this] show ?thesis using \<open>skipped = []\<close> by simp
  qed
qed

text \<open>
  \<^verbatim>\<open>s.replace(re, replacement)\<close> with the \<^verbatim>\<open>g\<close> flag: every match, found from the end of
  the one before, is replaced by what \<open>f\<close> makes of the match and its capture group. After
  an empty match the search moves on by one character.
\<close>

function replace_all :: "regex \<Rightarrow> (jstring \<Rightarrow> jstring option \<Rightarrow> jstring) \<Rightarrow> int option \<Rightarrow> jstring \<Rightarrow> jstring" where
  "replace_all r f prev s =
     (case search r prev s of
        None \<Rightarrow> s
      | Some (skipped, c, g) \<Rightarrow>
          skipped @ f c g @
            (if c = []
             then (case drop (length skipped) s of
                     [] \<Rightarrow> []
                   | x # xs \<Rightarrow> x # replace_all r f (Some x) xs)
             else replace_all r f (Some (last c)) (drop (length skipped + length c) s)))"
  by pat_completeness auto
termination
proof (relation "measure (\<lambda>(r, f, prev, s). length s)", goal_cases)
  case 1
  show ?case by simp
next
  case (2 r f prev s x2 skipped y c g x21 x22)
  have "length (drop (length skipped) s) \<le> length s" by simp
  with 2 show ?case by simp
next
  case (3 r f prev s x2 skipped y c g)
  then have "search r prev s = Some (skipped, c, g)" by simp
  from search_prefix [OF this] 3 show ?case by (cases c) auto
qed

text \<open>The replacements of the source: the empty string, \<^verbatim>\<open>'$1'\<close>, and a fixed string.\<close>

definition remove :: "jstring \<Rightarrow> jstring option \<Rightarrow> jstring" where
  "remove m g = []"

definition group1 :: "jstring \<Rightarrow> jstring option \<Rightarrow> jstring" where
  "group1 m g = (case g of None \<Rightarrow> [] | Some t \<Rightarrow> t)"

definition always :: "jstring \<Rightarrow> jstring \<Rightarrow> jstring option \<Rightarrow> jstring" where
  "always t m g = t"

text \<open>A character, and a sequence of expressions.\<close>

definition lit :: "int \<Rightarrow> regex" where
  "lit c = Chars (False, [(c, c)])"

definition any_char :: charclass where
  "any_char = (True, [])"

fun seq :: "regex list \<Rightarrow> regex" where
  "seq [] = Rep True 0 (Some 0) any_char"
| "seq [r] = r"
| "seq (r # rs) = Then r (seq rs)"

text \<open>
  \<^verbatim>\<open>String.prototype.trim\<close> removes the white space and the line terminators of
  ECMAScript from both ends.
\<close>

definition js_space :: "int \<Rightarrow> bool" where
  "js_space c \<longleftrightarrow>
     c \<in> set [9, 10, 11, 12, 13, 32, 160, 5760, 8232, 8233, 8239, 8287, 12288, 65279]
     \<or> (8192 \<le> c \<and> c \<le> 8202)"

definition trim :: "jstring \<Rightarrow> jstring" where
  "trim s = rev (dropWhile js_space (rev (dropWhile js_space s)))"


section \<open>\<^verbatim>\<open>JSON.parse\<close> and \<^verbatim>\<open>JSON.stringify\<close>\<close>

text \<open>The white space of JSON: tab, line feed, carriage return and space.\<close>

definition json_ws :: "int \<Rightarrow> bool" where
  "json_ws c \<longleftrightarrow> c = 9 \<or> c = 10 \<or> c = 13 \<or> c = 32"

definition is_digit :: "int \<Rightarrow> bool" where
  "is_digit c \<longleftrightarrow> 48 \<le> c \<and> c \<le> 57"

text \<open>The value of a hexadecimal digit, and the character a two-character escape stands for.\<close>

definition hexval :: "int \<Rightarrow> int option" where
  "hexval c =
     (if 48 \<le> c \<and> c \<le> 57 then Some (c - 48)
      else if 65 \<le> c \<and> c \<le> 70 then Some (c - 55)
      else if 97 \<le> c \<and> c \<le> 102 then Some (c - 87)
      else None)"

definition unescape :: "int \<Rightarrow> int option" where
  "unescape e =
     (if e = 34 then Some 34 else if e = 92 then Some 92 else if e = 47 then Some 47
      else if e = 98 then Some 8 else if e = 102 then Some 12 else if e = 110 then Some 10
      else if e = 114 then Some 13 else if e = 116 then Some 9 else None)"

text \<open>
  The body of a string, read after its opening quote up to the closing one: the characters
  it denotes and the text that follows. A control character (below U+0020) and an unknown
  escape are syntax errors.
\<close>

definition prepend :: "int \<Rightarrow> (jstring \<times> jstring) option \<Rightarrow> (jstring \<times> jstring) option" where
  "prepend x r = (case r of None \<Rightarrow> None | Some (t, rest) \<Rightarrow> Some (x # t, rest))"

fun json_string :: "jstring \<Rightarrow> (jstring \<times> jstring) option" where
  "json_string [] = None"
| "json_string (c # cs) =
     (if c = 34 then Some ([], cs)
      else if c = 92 then
        (case cs of
           [] \<Rightarrow> None
         | e # cs' \<Rightarrow>
             if e = 117 then
               (case cs' of
                  h1 # h2 # h3 # h4 # cs'' \<Rightarrow>
                    (case (hexval h1, hexval h2, hexval h3, hexval h4) of
                       (Some a, Some b, Some c', Some d) \<Rightarrow>
                         prepend (a * 4096 + b * 256 + c' * 16 + d) (json_string cs'')
                     | _ \<Rightarrow> None)
                | _ \<Rightarrow> None)
             else (case unescape e of
                     None \<Rightarrow> None
                   | Some x \<Rightarrow> prepend x (json_string cs')))
      else if c < 32 then None
      else prepend c (json_string cs))"

text \<open>
  A number: \<^verbatim>\<open>-? (0 | [1-9][0-9]*) (. [0-9]+)? ([eE] [+-]? [0-9]+)?\<close>, read in its parts;
  each part returns the text that follows it. The value is the one the literal denotes.
\<close>

definition digits_value :: "jstring \<Rightarrow> int" where
  "digits_value ds = foldl (\<lambda>n d. 10 * n + (d - 48)) 0 ds"

definition json_int :: "jstring \<Rightarrow> (jstring \<times> jstring) option" where
  "json_int s =
     (case s of
        [] \<Rightarrow> None
      | c # cs \<Rightarrow>
          if c = 48 then Some ([48], cs)
          else if is_digit c then Some (takeWhile is_digit s, dropWhile is_digit s)
          else None)"

definition json_frac :: "jstring \<Rightarrow> (jstring \<times> jstring) option" where
  "json_frac s =
     (case s of
        [] \<Rightarrow> Some ([], [])
      | c # cs \<Rightarrow>
          if c = 46 then
            (if takeWhile is_digit cs = [] then None
             else Some (takeWhile is_digit cs, dropWhile is_digit cs))
          else Some ([], s))"

definition json_exp :: "jstring \<Rightarrow> ((bool \<times> jstring) option \<times> jstring) option" where
  "json_exp s =
     (case s of
        [] \<Rightarrow> Some (None, [])
      | c # cs \<Rightarrow>
          if c = 101 \<or> c = 69 then
            (let neg = (case cs of d # _ \<Rightarrow> d = 45 | [] \<Rightarrow> False);
                 signed = (case cs of d # _ \<Rightarrow> d = 45 \<or> d = 43 | [] \<Rightarrow> False);
                 ds = (if signed then tl cs else cs)
             in if takeWhile is_digit ds = [] then None
                else Some (Some (neg, takeWhile is_digit ds), dropWhile is_digit ds))
          else Some (None, s))"

definition json_number :: "jstring \<Rightarrow> (rat \<times> jstring) option" where
  "json_number s =
     (let neg = (case s of c # _ \<Rightarrow> c = 45 | [] \<Rightarrow> False);
          s1 = (if neg then tl s else s)
      in case json_int s1 of
           None \<Rightarrow> None
         | Some (ipart, s2) \<Rightarrow>
             (case json_frac s2 of
                None \<Rightarrow> None
              | Some (fpart, s3) \<Rightarrow>
                  (case json_exp s3 of
                     None \<Rightarrow> None
                   | Some (ex, s4) \<Rightarrow>
                       let mant = of_int (digits_value (ipart @ fpart)) / 10 ^ length fpart;
                           scaled = (case ex of
                                       None \<Rightarrow> mant
                                     | Some (eneg, ep) \<Rightarrow>
                                         if eneg then mant / 10 ^ nat (digits_value ep)
                                         else mant * 10 ^ nat (digits_value ep))
                       in Some (if neg then - scaled else scaled, s4))))"

text \<open>Every token is shorter than the text it is read from: what the parser is measured by.\<close>

lemma prepend_rest:
  "prepend x r = Some (t, rest) \<Longrightarrow> \<exists>t'. r = Some (t', rest)"
  by (auto simp add: prepend_def split: option.splits)

lemma json_string_step:
  assumes "json_string (c # cs) = Some (t, rest)"
  shows "rest = cs \<or> (\<exists>X t'. json_string X = Some (t', rest) \<and> length X \<le> length cs)"
proof (cases "c = 34")
  case True
  with assms show ?thesis by simp
next
  case n34: False
  show ?thesis
  proof (cases "c = 92")
    case False
    with n34 assms have "prepend c (json_string cs) = Some (t, rest)"
      by (auto split: if_splits)
    from prepend_rest [OF this] show ?thesis by blast
  next
    case True
    from assms True n34 obtain e cs' where cs: "cs = e # cs'" by (cases cs) auto
    show ?thesis
    proof (cases "e = 117")
      case False
      with assms True n34 cs obtain x where
        "prepend x (json_string cs') = Some (t, rest)"
        by (auto split: option.splits)
      from prepend_rest [OF this] show ?thesis using cs by auto
    next
      case u: True
      with assms True n34 cs obtain h1 h2 h3 h4 cs'' x where
        h: "cs' = h1 # h2 # h3 # h4 # cs''"
        and p: "prepend x (json_string cs'') = Some (t, rest)"
        by (auto split: list.splits option.splits)
      from prepend_rest [OF p] show ?thesis using cs h by auto
    qed
  qed
qed

lemma json_string_rest: "json_string s = Some (t, rest) \<Longrightarrow> length rest < length s"
proof (induction "length s" arbitrary: s t rule: less_induct)
  case less
  from less.prems obtain c cs where s: "s = c # cs" by (cases s) auto
  from json_string_step [OF less.prems [unfolded s]]
  consider "rest = cs" | X t' where "json_string X = Some (t', rest)" "length X \<le> length cs"
    by blast
  then show ?case
  proof cases
    case 1
    then show ?thesis by (simp add: s)
  next
    case 2
    then have "length X < length s" by (simp add: s)
    from less.hyps [OF this 2(1)] 2(2) show ?thesis by (simp add: s)
  qed
qed

lemma json_int_rest: "json_int s = Some (ipart, rest) \<Longrightarrow> length rest < length s"
  by (cases s) (auto simp add: json_int_def intro: le_imp_less_Suc length_dropWhile_le split: if_splits)

lemma json_frac_rest: "json_frac s = Some (fpart, rest) \<Longrightarrow> length rest \<le> length s"
  by (cases s) (auto simp add: json_frac_def intro: le_SucI length_dropWhile_le split: if_splits)

lemma json_exp_rest: "json_exp s = Some (ex, rest) \<Longrightarrow> length rest \<le> length s"
proof (cases s)
  case Nil
  then show "json_exp s = Some (ex, rest) \<Longrightarrow> length rest \<le> length s"
    by (simp add: json_exp_def)
next
  case (Cons c cs)
  assume a: "json_exp s = Some (ex, rest)"
  show "length rest \<le> length s"
  proof (cases "c = 101 \<or> c = 69")
    case False
    with a Cons show ?thesis by (auto simp add: json_exp_def)
  next
    case True
    define ds where "ds = (if (case cs of d # _ \<Rightarrow> d = 45 \<or> d = 43 | [] \<Rightarrow> False) then tl cs else cs)"
    have "rest = dropWhile is_digit ds"
      using a Cons True by (auto simp add: json_exp_def Let_def ds_def split: if_splits)
    moreover have "length (dropWhile is_digit ds) \<le> length ds" by (rule length_dropWhile_le)
    moreover have "length ds \<le> length cs" by (simp add: ds_def)
    ultimately show ?thesis using Cons by simp
  qed
qed

lemma json_number_rest:
  assumes "json_number s = Some (q, rest)"
  shows "length rest < length s"
proof -
  define s1 where "s1 = (if (case s of c # _ \<Rightarrow> c = 45 | [] \<Rightarrow> False) then tl s else s)"
  from assms obtain ipart s2 fpart s3 ex where
    i: "json_int s1 = Some (ipart, s2)" and f: "json_frac s2 = Some (fpart, s3)"
    and e: "json_exp s3 = Some (ex, rest)"
    by (auto simp add: json_number_def Let_def s1_def split: option.splits)
  have "length s1 \<le> length s" by (simp add: s1_def)
  with json_int_rest [OF i] json_frac_rest [OF f] json_exp_rest [OF e] show ?thesis by linarith
qed

text \<open>
  The parser reads the text from left to right with a stack of the arrays and objects that
  are open: an array with its elements so far, an object with its properties so far, and an
  object that has read a key and waits for the value. The mode says what may come next.
\<close>

datatype frame =
    ArrF "json list"
  | ObjM "(jstring \<times> json) list"
  | ObjK "(jstring \<times> json) list" jstring

datatype mode = MValue | MArrFirst | MObjFirst | MKey | MColon | MAfter | MDone json

text \<open>A property that is set again keeps its place and takes the new value.\<close>

definition obj_put :: "(jstring \<times> json) list \<Rightarrow> jstring \<Rightarrow> json \<Rightarrow> (jstring \<times> json) list" where
  "obj_put ms k v =
     (if k \<in> set (map fst ms) then map (\<lambda>(k', v'). if k' = k then (k', v) else (k', v')) ms
      else ms @ [(k, v)])"

text \<open>A value is complete: it is the result, or it goes into the array or the object on top of the stack.\<close>

definition attach :: "json \<Rightarrow> frame list \<Rightarrow> (mode \<times> frame list) option" where
  "attach v st =
     (case st of
        [] \<Rightarrow> Some (MDone v, [])
      | ArrF es # st' \<Rightarrow> Some (MAfter, ArrF (es @ [v]) # st')
      | ObjK ms k # st' \<Rightarrow> Some (MAfter, ObjM (obj_put ms k v) # st')
      | ObjM ms # st' \<Rightarrow> None)"

text \<open>\<^verbatim>\<open>true\<close>, \<^verbatim>\<open>false\<close>, \<^verbatim>\<open>null\<close>; and a string, a number or one of these three.\<close>

definition literal :: "jstring \<Rightarrow> (json \<times> jstring) option" where
  "literal s =
     (if take 4 s = str ''true'' then Some (Bool True, drop 4 s)
      else if take 5 s = str ''false'' then Some (Bool False, drop 5 s)
      else if take 4 s = str ''null'' then Some (Null, drop 4 s)
      else None)"

definition scalar :: "jstring \<Rightarrow> (json \<times> jstring) option" where
  "scalar s =
     (case s of
        [] \<Rightarrow> None
      | c # cs \<Rightarrow>
          if c = 34 then (case json_string cs of None \<Rightarrow> None | Some (t, rest) \<Rightarrow> Some (Str t, rest))
          else if c = 45 \<or> is_digit c then
            (case json_number s of None \<Rightarrow> None | Some (q, rest) \<Rightarrow> Some (Num q, rest))
          else literal s)"

lemma literal_rest: "literal s = Some (v, rest) \<Longrightarrow> length rest < length s"
  by (cases s) (auto simp add: literal_def str_def split: if_splits)

lemma scalar_rest: "scalar s = Some (v, rest) \<Longrightarrow> length rest < length s"
  by (cases s)
    (auto simp add: scalar_def split: if_splits option.splits
      dest: json_string_rest json_number_rest literal_rest)

function parse_loop :: "mode \<Rightarrow> frame list \<Rightarrow> jstring \<Rightarrow> json option" where
  "parse_loop m st [] = (case m of MDone v \<Rightarrow> Some v | _ \<Rightarrow> None)"
| "parse_loop m st (c # cs) =
     (if json_ws c then parse_loop m st cs
      else case m of
        MDone v \<Rightarrow> None
      | MColon \<Rightarrow> if c = 58 then parse_loop MValue st cs else None
      | MKey \<Rightarrow>
          (case st of
             ObjM ms # st' \<Rightarrow>
               if c = 34 then
                 (case json_string cs of
                    None \<Rightarrow> None
                  | Some (k, rest) \<Rightarrow> parse_loop MColon (ObjK ms k # st') rest)
               else None
           | _ \<Rightarrow> None)
      | MObjFirst \<Rightarrow>
          (case st of
             ObjM ms # st' \<Rightarrow>
               if c = 125 then
                 (case attach (Obj ms) st' of
                    None \<Rightarrow> None
                  | Some (m', st'') \<Rightarrow> parse_loop m' st'' cs)
               else if c = 34 then
                 (case json_string cs of
                    None \<Rightarrow> None
                  | Some (k, rest) \<Rightarrow> parse_loop MColon (ObjK ms k # st') rest)
               else None
           | _ \<Rightarrow> None)
      | MAfter \<Rightarrow>
          (case st of
             ArrF es # st' \<Rightarrow>
               if c = 44 then parse_loop MValue st cs
               else if c = 93 then
                 (case attach (Arr es) st' of
                    None \<Rightarrow> None
                  | Some (m', st'') \<Rightarrow> parse_loop m' st'' cs)
               else None
           | ObjM ms # st' \<Rightarrow>
               if c = 44 then parse_loop MKey st cs
               else if c = 125 then
                 (case attach (Obj ms) st' of
                    None \<Rightarrow> None
                  | Some (m', st'') \<Rightarrow> parse_loop m' st'' cs)
               else None
           | _ \<Rightarrow> None)
      | _ \<Rightarrow>
          if m = MArrFirst \<and> c = 93 then
            (case attach (Arr []) (tl st) of
               None \<Rightarrow> None
             | Some (m', st'') \<Rightarrow> parse_loop m' st'' cs)
          else if c = 123 then parse_loop MObjFirst (ObjM [] # st) cs
          else if c = 91 then parse_loop MArrFirst (ArrF [] # st) cs
          else
            (case scalar (c # cs) of
               None \<Rightarrow> None
             | Some (v, rest) \<Rightarrow>
                 (case attach v st of
                    None \<Rightarrow> None
                  | Some (m', st'') \<Rightarrow> parse_loop m' st'' rest)))"
  by pat_completeness auto
termination
  by (relation "measure (\<lambda>(m, st, s). length s)")
    (auto dest: json_string_rest scalar_rest)

text \<open>\<^verbatim>\<open>JSON.parse(text)\<close>: \<open>None\<close> when it throws a \<^verbatim>\<open>SyntaxError\<close>.\<close>

definition JSON_parse :: "jstring \<Rightarrow> json option" where
  "JSON_parse s = parse_loop MValue [] s"

text \<open>
  \<^verbatim>\<open>JSON.stringify\<close> quotes a string: the escapes of JSON, \<^verbatim>\<open>\uXXXX\<close> in lower case for
  the other control characters and for a surrogate without its partner.
\<close>

definition hex_digit :: "int \<Rightarrow> int" where
  "hex_digit n = (if n < 10 then 48 + n else 87 + n)"

definition unicode_escape :: "int \<Rightarrow> jstring" where
  "unicode_escape c =
     [92, 117, hex_digit (c div 4096 mod 16), hex_digit (c div 256 mod 16),
      hex_digit (c div 16 mod 16), hex_digit (c mod 16)]"

fun quote_units :: "jstring \<Rightarrow> jstring" where
  "quote_units [] = []"
| "quote_units (c # cs) =
     (if c = 8 then [92, 98] @ quote_units cs
      else if c = 9 then [92, 116] @ quote_units cs
      else if c = 10 then [92, 110] @ quote_units cs
      else if c = 12 then [92, 102] @ quote_units cs
      else if c = 13 then [92, 114] @ quote_units cs
      else if c = 34 then [92, 34] @ quote_units cs
      else if c = 92 then [92, 92] @ quote_units cs
      else if c < 32 then unicode_escape c @ quote_units cs
      else if 55296 \<le> c \<and> c \<le> 56319 then
        (case cs of
           d # ds \<Rightarrow>
             if 56320 \<le> d \<and> d \<le> 57343 then c # d # quote_units ds
             else unicode_escape c @ quote_units cs
         | [] \<Rightarrow> unicode_escape c)
      else if 56320 \<le> c \<and> c \<le> 57343 then unicode_escape c @ quote_units cs
      else c # quote_units cs)"

definition quote :: "jstring \<Rightarrow> jstring" where
  "quote s = [34] @ quote_units s @ [34]"

text \<open>The decimal digits of an integer \<open>n \<ge> 0\<close>, and of any integer.\<close>

function decimal :: "int \<Rightarrow> jstring" where
  "decimal n = (if n < 10 then [48 + n] else decimal (n div 10) @ [48 + n mod 10])"
  by pat_completeness auto
termination
  by (relation "measure nat") auto

definition int_text :: "int \<Rightarrow> jstring" where
  "int_text i = (if i < 0 then 45 # decimal (- i) else decimal i)"

text \<open>
  The text of a number. An integer of magnitude up to \<open>2 ^ 53\<close> is a double and prints as its
  digits. Every other number is first rounded to a double and then printed with the
  shortest digits that read back as that double: the floating-point printing of the runtime
  is the parameter \<open>ntoa\<close>, from the value of the literal to the text.
\<close>

definition number_text :: "(rat \<Rightarrow> jstring) \<Rightarrow> rat \<Rightarrow> jstring" where
  "number_text ntoa q =
     (if of_int \<lfloor>q\<rfloor> = q \<and> abs q \<le> 2 ^ 53 then int_text \<lfloor>q\<rfloor> else ntoa q)"

text \<open>
  The properties of an object in the order of \<^verbatim>\<open>Object.keys\<close>: the array indices (the
  canonical decimal numbers below \<open>2 ^ 32 - 1\<close>) in ascending order, then the other keys in
  creation order.
\<close>

definition array_index :: "jstring \<Rightarrow> bool" where
  "array_index k \<longleftrightarrow>
     k \<noteq> [] \<and> list_all is_digit k \<and> (k = [48] \<or> hd k \<noteq> 48) \<and> digits_value k < 2 ^ 32 - 1"

definition own_properties :: "(jstring \<times> json) list \<Rightarrow> (jstring \<times> json) list" where
  "own_properties ms =
     sort_key (\<lambda>(k, v). digits_value k) (filter (\<lambda>(k, v). array_index k) ms)
     @ filter (\<lambda>(k, v). \<not> array_index k) ms"

definition join :: "jstring \<Rightarrow> jstring list \<Rightarrow> jstring" where
  "join sep xs = (case xs of [] \<Rightarrow> [] | x # rest \<Rightarrow> x @ concat (map (\<lambda>y. sep @ y) rest))"

text \<open>\<^verbatim>\<open>JSON.stringify(value, null, 2)\<close> at the indentation \<open>ind\<close>.\<close>

lemma own_properties_set: "set (own_properties ms) = set ms"
  by (auto simp add: own_properties_def)

function (sequential) stringify :: "(rat \<Rightarrow> jstring) \<Rightarrow> jstring \<Rightarrow> json \<Rightarrow> jstring" where
  "stringify ntoa ind Null = str ''null''"
| "stringify ntoa ind (Bool b) = (if b then str ''true'' else str ''false'')"
| "stringify ntoa ind (Num q) = number_text ntoa q"
| "stringify ntoa ind (Str s) = quote s"
| "stringify ntoa ind (Arr vs) =
     (if vs = [] then str ''[]''
      else str ''['' @ [10] @ (ind @ str ''  '')
           @ join (str '','' @ [10] @ (ind @ str ''  ''))
               (map (stringify ntoa (ind @ str ''  '')) vs)
           @ [10] @ ind @ str '']'')"
| "stringify ntoa ind (Obj ms) =
     (if ms = [] then str ''{}''
      else str ''{'' @ [10] @ (ind @ str ''  '')
           @ join (str '','' @ [10] @ (ind @ str ''  ''))
               (map (\<lambda>(k, v). quote k @ str '': '' @ stringify ntoa (ind @ str ''  '') v)
                  (own_properties ms))
           @ [10] @ ind @ str ''}'')"
  by pat_completeness auto
termination
proof (relation "measure (\<lambda>(ntoa, ind, v). size v)", goal_cases)
  case 1
  show ?case by simp
next
  case (2 ntoa ind vs x)
  then have "size x \<le> size_list size vs"
    using size_list_estimation' [of x vs "size x" size] by simp
  then show ?case by simp
next
  case (3 ntoa ind ms kv k v)
  then have "(k, v) \<in> set ms" by (simp add: own_properties_set)
  then have "size v \<le> size_list (size_prod (\<lambda>x. 0) size) ms"
    using size_list_estimation' [of "(k, v)" ms "size v" "size_prod (\<lambda>x. 0) size"] by simp
  then show ?case by simp
qed

definition JSON_stringify :: "(rat \<Rightarrow> jstring) \<Rightarrow> json \<Rightarrow> jstring" where
  "JSON_stringify ntoa v = stringify ntoa [] v"


section \<open>The sanitizer \<^verbatim>\<open>cleanAIContent\<close>\<close>

text \<open>The regular expressions of the source, in its order.\<close>

text \<open>\<^verbatim>\<open>/```[\s\S]*?```/g\<close>\<close>

definition fence_re :: regex where
  "fence_re = seq [lit 96, lit 96, lit 96, Rep False 0 None any_char, lit 96, lit 96, lit 96]"

text \<open>\<^verbatim>\<open>/\{[\s\S]*\}/\<close>\<close>

definition json_re :: regex where
  "json_re = seq [lit 123, Rep True 0 None any_char, lit 125]"

text \<open>\<^verbatim>\<open>/\b[A-Z0-9._%+-]+@[A-Z0-9.-]+\.[A-Z]{2,}\b/gi\<close>\<close>

definition email_re :: regex where
  "email_re =
     seq [WordBoundary,
          Rep True 1 None
            (False, [(65, 90), (97, 122), (48, 57), (46, 46), (95, 95), (37, 37), (43, 43), (45, 45)]),
          lit 64,
          Rep True 1 None (False, [(65, 90), (97, 122), (48, 57), (46, 46), (45, 45)]),
          lit 46,
          Rep True 2 None (False, [(65, 90), (97, 122)]),
          WordBoundary]"

text \<open>\<^verbatim>\<open>/\*\*(.*?)\*\*/gs\<close>, \<^verbatim>\<open>/__(.*?)__/gs\<close>, \<^verbatim>\<open>/\*(.*?)\*/gs\<close>\<close>

definition bold_re :: regex where
  "bold_re = seq [lit 42, lit 42, Group (Rep False 0 None any_char), lit 42, lit 42]"

definition underline_re :: regex where
  "underline_re = seq [lit 95, lit 95, Group (Rep False 0 None any_char), lit 95, lit 95]"

definition italic_re :: regex where
  "italic_re = seq [lit 42, Group (Rep False 0 None any_char), lit 42]"

text \<open>\<^verbatim>\<open>/`([^`]+)`/g\<close>, \<^verbatim>\<open>/&quot;/g\<close>, \<^verbatim>\<open>/\\n/g\<close>, \<^verbatim>\<open>/\\+/g\<close>, \<^verbatim>\<open>/\r\n/g\<close>, \<^verbatim>\<open>/\n{3,}/g\<close>\<close>

definition code_re :: regex where
  "code_re = seq [lit 96, Group (Rep True 1 None (True, [(96, 96)])), lit 96]"

definition quot_re :: regex where
  "quot_re = seq (map lit (str ''&quot;''))"

definition backslash_n_re :: regex where
  "backslash_n_re = seq [lit 92, lit 110]"

definition backslashes_re :: regex where
  "backslashes_re = Rep True 1 None (False, [(92, 92)])"

definition crlf_re :: regex where
  "crlf_re = seq [lit 13, lit 10]"

definition blank_lines_re :: regex where
  "blank_lines_re = Rep True 3 None (False, [(10, 10)])"

text \<open>\<^verbatim>\<open>parsed.data\<close>, and whether a value is truthy.\<close>

definition property :: "json \<Rightarrow> jstring \<Rightarrow> json option" where
  "property v k = (case v of Obj ms \<Rightarrow> map_of ms k | _ \<Rightarrow> None)"

definition truthy :: "json \<Rightarrow> bool" where
  "truthy v =
     (case v of Null \<Rightarrow> False | Bool b \<Rightarrow> b | Num q \<Rightarrow> q \<noteq> 0 | Str s \<Rightarrow> s \<noteq> [] | _ \<Rightarrow> True)"

text \<open>
  The second step of the sanitizer:
  \<^verbatim>\<open>
  const jsonMatch = s.match(/\{[\s\S]*\}/);
  if (jsonMatch) {
    try {
      const parsed = JSON.parse(jsonMatch[0]);
      if (typeof parsed === 'string') s = parsed;
      else if (parsed && typeof parsed.data === 'string') s = parsed.data;
      else s = JSON.stringify(parsed, null, 2);
    } catch (e) { s = jsonMatch[0]; }
  }
  \<close>
  \<open>from_parsed\<close> is the choice made on the parsed value, \<open>extract_json\<close> the whole step.
\<close>

definition from_parsed :: "(rat \<Rightarrow> jstring) \<Rightarrow> json \<Rightarrow> jstring" where
  "from_parsed ntoa parsed =
     (case parsed of
        Str t \<Rightarrow> t
      | _ \<Rightarrow>
          (case (if truthy parsed then property parsed (str ''data'') else None) of
             Some (Str d) \<Rightarrow> d
           | _ \<Rightarrow> JSON_stringify ntoa parsed))"

definition extract_json :: "(rat \<Rightarrow> jstring) \<Rightarrow> jstring \<Rightarrow> jstring" where
  "extract_json ntoa s =
     (case search json_re None s of
        None \<Rightarrow> s
      | Some (skipped, jsonMatch, g) \<Rightarrow>
          (case JSON_parse jsonMatch of
             None \<Rightarrow> jsonMatch
           | Some parsed \<Rightarrow> from_parsed ntoa parsed))"

text \<open>The steps after it: e-mail addresses, Markdown markers, escapes, blank lines.\<close>

definition finish :: "jstring \<Rightarrow> jstring" where
  "finish s0 =
     (let s = replace_all email_re remove None s0;
          s = replace_all bold_re group1 None s;
          s = replace_all underline_re group1 None s;
          s = replace_all italic_re group1 None s;
          s = replace_all code_re group1 None s;
          s = replace_all quot_re (always [34]) None s;
          s = replace_all backslash_n_re (always [10]) None s;
          s = replace_all backslashes_re remove None s;
          s = replace_all blank_lines_re (always [10, 10]) None
                (replace_all crlf_re (always [10]) None s)
      in trim s)"

text \<open>
  \<^verbatim>\<open>cleanAIContent(raw)\<close> for a string \<open>raw\<close>; the empty string is falsy and returns at
  once.
\<close>

definition cleanAIContent :: "(rat \<Rightarrow> jstring) \<Rightarrow> jstring \<Rightarrow> jstring" where
  "cleanAIContent ntoa raw =
     (if raw = [] then []
      else finish (extract_json ntoa (replace_all fence_re remove None raw)))"


section \<open>The dispatcher \<^verbatim>\<open>POST /bfhl\<close>\<close>

text \<open>
  The configuration: \<^verbatim>\<open>OFFICIAL_EMAIL\<close>, and \<^verbatim>\<open>genAI\<close>, which is \<^verbatim>\<open>null\<close> without an API
  key. The generative model is outside the repository: it is the function from the prompt
  to the text of the answer, \<open>None\<close> when the call throws.
\<close>

record env =
  OFFICIAL_EMAIL :: "jstring option"
  genAI :: "(jstring \<Rightarrow> jstring option) option"

definition sendError :: "env \<Rightarrow> nat \<Rightarrow> jstring \<Rightarrow> response" where
  "sendError cfg code message =
     \<lparr>status = code, is_success = False, official_email = or_null (OFFICIAL_EMAIL cfg),
      data = None, error = Some message\<rparr>"

text \<open>\<^verbatim>\<open>res.json({ is_success: true, official_email: OFFICIAL_EMAIL, data })\<close>\<close>

definition success :: "env \<Rightarrow> json \<Rightarrow> response" where
  "success cfg d =
     \<lparr>status = 200, is_success = True, official_email = OFFICIAL_EMAIL cfg,
      data = Some d, error = None\<rparr>"

definition allowedKeys :: "jstring list" where
  "allowedKeys = [str ''fibonacci'', str ''prime'', str ''lcm'', str ''hcf'', str ''AI'']"

text \<open>
  \<^verbatim>\<open>Number.isInteger\<close>; the integer of an integral number; and the number of an integer.
\<close>

definition isInteger :: "json \<Rightarrow> bool" where
  "isInteger v = (case v of Num q \<Rightarrow> of_int \<lfloor>q\<rfloor> = q | _ \<Rightarrow> False)"

definition the_int :: "json \<Rightarrow> int" where
  "the_int v = (case v of Num q \<Rightarrow> \<lfloor>q\<rfloor> | _ \<Rightarrow> 0)"

definition number :: "int \<Rightarrow> json" where
  "number i = Num (of_int i)"

text \<open>
  \<^verbatim>\<open>!body || typeof body !== 'object'\<close> lets objects and arrays pass (a missing body fails it
  as \<^verbatim>\<open>null\<close> does). \<^verbatim>\<open>Object.keys\<close> of an array are its indices.
\<close>

definition is_object :: "json \<Rightarrow> bool" where
  "is_object body = (case body of Obj ms \<Rightarrow> True | Arr vs \<Rightarrow> True | _ \<Rightarrow> False)"

definition object_keys :: "json \<Rightarrow> jstring list" where
  "object_keys body =
     (case body of
        Obj ms \<Rightarrow> map fst (own_properties ms)
      | Arr vs \<Rightarrow> map (\<lambda>i. decimal (int i)) [0..<length vs]
      | _ \<Rightarrow> [])"

text \<open>
  \<^verbatim>\<open>arr.map((x) => { if (!isInteger(x)) throw new Error(message); return x; })\<close>
\<close>

definition integers_of :: "jstring \<Rightarrow> json list \<Rightarrow> exn + int list" where
  "integers_of message arr =
     (if list_all isInteger arr then Inr (map the_int arr)
      else Inl (Error message))"

definition fibonacci_branch :: "env \<Rightarrow> json \<Rightarrow> exn + response" where
  "fibonacci_branch cfg body =
     (case property body (str ''fibonacci'') of
        Some n \<Rightarrow>
          if \<not> isInteger n \<or> the_int n \<le> 0 \<or> the_int n > 1000
          then Inr (sendError cfg 400 (str ''fibonacci must be an integer in range 1..1000''))
          else Inr (success cfg (Arr (map number (fibSeries (the_int n)))))
      | None \<Rightarrow> Inr (sendError cfg 400 (str ''fibonacci must be an integer in range 1..1000'')))"

definition prime_branch :: "env \<Rightarrow> json \<Rightarrow> exn + response" where
  "prime_branch cfg body =
     (case property body (str ''prime'') of
        Some (Arr arr) \<Rightarrow>
          if arr = [] then Inr (sendError cfg 400 (str ''prime must be a non-empty array''))
          else (case integers_of (str ''prime array must contain integers'') arr of
                  Inl err \<Rightarrow> Inl err
                | Inr nums \<Rightarrow> Inr (success cfg (Arr (map number (filter isPrimeNum nums)))))
      | _ \<Rightarrow> Inr (sendError cfg 400 (str ''prime must be a non-empty array'')))"

definition hcf_branch :: "env \<Rightarrow> json \<Rightarrow> exn + response" where
  "hcf_branch cfg body =
     (case property body (str ''hcf'') of
        Some (Arr arr) \<Rightarrow>
          if arr = [] then Inr (sendError cfg 400 (str ''hcf must be a non-empty array''))
          else (case integers_of (str ''hcf array must contain integers'') arr of
                  Inl err \<Rightarrow> Inl err
                | Inr nums \<Rightarrow>
                    (case gcdArray nums of
                       Inl err \<Rightarrow> Inl err
                     | Inr g \<Rightarrow> Inr (success cfg (number g))))
      | _ \<Rightarrow> Inr (sendError cfg 400 (str ''hcf must be a non-empty array'')))"

definition lcm_branch :: "env \<Rightarrow> json \<Rightarrow> exn + response" where
  "lcm_branch cfg body =
     (case property body (str ''lcm'') of
        Some (Arr arr) \<Rightarrow>
          if arr = [] then Inr (sendError cfg 400 (str ''lcm must be a non-empty array''))
          else (case integers_of (str ''lcm array must contain integers'') arr of
                  Inl err \<Rightarrow> Inl err
                | Inr nums \<Rightarrow>
                    (case lcmArray nums of
                       Inl err \<Rightarrow> Inl err
                     | Inr l \<Rightarrow> Inr (success cfg (number l))))
      | _ \<Rightarrow> Inr (sendError cfg 400 (str ''lcm must be a non-empty array'')))"

text \<open>
  The \<^verbatim>\<open>AI\<close> branch, with its own \<^verbatim>\<open>try\<close>: the prompt is \<^verbatim>\<open>`Answer Question: ${question}`\<close>,
  an exception of the call is a 502, and so is an empty answer.
\<close>

definition AI_branch :: "(rat \<Rightarrow> jstring) \<Rightarrow> env \<Rightarrow> json \<Rightarrow> exn + response" where
  "AI_branch ntoa cfg body =
     (case property body (str ''AI'') of
        Some (Str question) \<Rightarrow>
          if trim question = [] then Inr (sendError cfg 400 (str ''AI must be a non-empty string''))
          else (case genAI cfg of
                  None \<Rightarrow> Inr (sendError cfg 503 (str ''AI service not configured''))
                | Some generateContent \<Rightarrow>
                    (case generateContent (str ''Answer Question: '' @ question) of
                       None \<Rightarrow> Inr (sendError cfg 502 (str ''AI service error''))
                     | Some content \<Rightarrow>
                         if content = []
                         then Inr (sendError cfg 502 (str ''AI service returned no answer''))
                         else Inr (success cfg (Str (cleanAIContent ntoa (trim content))))))
      | _ \<Rightarrow> Inr (sendError cfg 400 (str ''AI must be a non-empty string'')))"

text \<open>The chain of \<^verbatim>\<open>if (key === ...)\<close> inside the \<^verbatim>\<open>try\<close>.\<close>

definition dispatch :: "(rat \<Rightarrow> jstring) \<Rightarrow> env \<Rightarrow> jstring \<Rightarrow> json \<Rightarrow> exn + response" where
  "dispatch ntoa cfg key body =
     (if key = str ''fibonacci'' then fibonacci_branch cfg body
      else if key = str ''prime'' then prime_branch cfg body
      else if key = str ''hcf'' then hcf_branch cfg body
      else if key = str ''lcm'' then lcm_branch cfg body
      else if key = str ''AI'' then AI_branch ntoa cfg body
      else Inr (sendError cfg 400 (str ''Unhandled key'')))"

text \<open>\<^verbatim>\<open>err.message\<close>\<close>

definition message_of :: "exn \<Rightarrow> jstring" where
  "message_of err =
     (case err of
        Error message \<Rightarrow> message
      | TypeError \<Rightarrow> str ''Reduce of empty array with no initial value'')"

text \<open>
  The handler. The \<^verbatim>\<open>catch\<close> answers 400 with the message of the error, or with
  \<^verbatim>\<open>'Server error'\<close> when it has none.
\<close>

definition post_bfhl :: "(rat \<Rightarrow> jstring) \<Rightarrow> env \<Rightarrow> json \<Rightarrow> response" where
  "post_bfhl ntoa cfg body =
     (if \<not> truthy_string (OFFICIAL_EMAIL cfg)
      then sendError cfg 500 (str ''Server not configured: OFFICIAL_EMAIL missing'')
      else if \<not> is_object body then sendError cfg 400 (str ''Invalid JSON body'')
      else
        let keys = object_keys body
        in if length keys \<noteq> 1
           then sendError cfg 400 (str ''Request must contain exactly one top-level key'')
           else
             let key = hd keys
             in if key \<notin> set allowedKeys then sendError cfg 400 (str ''Unsupported key provided'')
                else (case dispatch ntoa cfg key body of
                        Inr res \<Rightarrow> res
                      | Inl err \<Rightarrow>
                          sendError cfg 400
                            (if message_of err \<noteq> [] then message_of err else str ''Server error'')))"

text \<open>
  What the specification calls a valid body: an object with exactly one key, one of the
  five, whose value has the shape the kernel needs.
\<close>

definition shape_ok :: "jstring \<Rightarrow> json \<Rightarrow> bool" where
  "shape_ok key v =
     (if key = str ''fibonacci'' then (\<exists>n. v = number n \<and> 1 \<le> n \<and> n \<le> 1000)
      else if key = str ''AI'' then (\<exists>question. v = Str question \<and> trim question \<noteq> [])
      else (\<exists>nums. v = Arr (map number nums) \<and> nums \<noteq> []))"

definition valid_body :: "json \<Rightarrow> bool" where
  "valid_body body \<longleftrightarrow> (\<exists>key v. body = Obj [(key, v)] \<and> key \<in> set allowedKeys \<and> shape_ok key v)"


section \<open>Auxiliary notions of the proofs\<close>

text \<open>
  The tail \<^verbatim>\<open>[\s\S]*\}\<close> of the expression \<^verbatim>\<open>/\{[\s\S]*\}/\<close>, and the match it has when
  the greedy star has taken \<open>k\<close> code units of \<open>t\<close>: one, if a closing brace stands there.
\<close>

definition brace_tail :: regex where
  "brace_tail = Then (Rep True 0 None any_char) (lit 125)"

definition closes :: "jstring \<Rightarrow> nat \<Rightarrow> (jstring \<times> jstring option) list" where
  "closes t k = (if k < length t \<and> t ! k = 125 then [(take k t @ [125], None)] else [])"

text \<open>A value that passes the checks of the array kernels: a non-empty array of integers.\<close>

definition array_shape :: "json \<Rightarrow> bool" where
  "array_shape v \<longleftrightarrow> (\<exists>nums. v = Arr (map number nums) \<and> nums \<noteq> [])"

text \<open>A response that refuses the request: status 400, no data, and a message that is not empty.\<close>

definition rejected :: "response \<Rightarrow> bool" where
  "rejected r \<longleftrightarrow> status r = 400 \<and> \<not> is_success r \<and> data r = None
     \<and> (\<exists>msg. error r = Some msg \<and> msg \<noteq> [])"


section \<open>Properties of the number model\<close>

lemma int_div_less: "(x::int) < u * k \<Longrightarrow> 0 < u \<Longrightarrow> x div u < k"
proof (rule ccontr)
  assume a: "x < u * k" "0 < u" and n: "\<not> x div u < k"
  then have "u * k \<le> u * (x div u)" by (simp add: mult_left_mono)
  moreover have "u * (x div u) \<le> x"
    using a(2) mult_div_mod_eq [of u x] pos_mod_sign [of u x] by linarith
  ultimately show False using a(1) by linarith
qed

lemma pow2_split: "m \<le> n \<Longrightarrow> (2::int) ^ (n - m) * 2 ^ m = 2 ^ n"
  by (simp flip: power_add)

lemma js_round_nonneg: "0 \<le> x \<Longrightarrow> 0 \<le> js_round x"
  by (auto simp add: js_round_def Let_def pos_imp_zdiv_nonneg_iff)

lemma js_round_minus: "js_round (- x) = - js_round x"
  by (simp add: js_round_def Let_def)

lemma js_round_pow2: "js_round (2 ^ k) = 2 ^ k"
proof (cases "k < 53")
  case True
  then have "(2::int) ^ k < 2 ^ 53" by (intro power_strict_increasing) simp_all
  then show ?thesis by (simp add: js_round_def)
next
  case False
  then have k53: "53 \<le> k" by simp
  have bl: "bitlen (2 ^ k) = int k + 1" using bitlen_twopow_add_eq [of 0 k] by simp
  have n: "nat (int k + 1 - 53) = k - 52" using k53 by arith
  have "(2::int) ^ 53 \<le> 2 ^ k" using k53 by (intro power_increasing) simp_all
  then have ge: "\<not> abs ((2::int) ^ k) < 2 ^ 53" by simp
  have abs2: "abs ((2::int) ^ k) = 2 ^ k" by simp
  have split: "(2::int) ^ k = 2 ^ 52 * 2 ^ (k - 52)"
  proof -
    have "k - (k - 52) = 52" using k53 by arith
    then show ?thesis using pow2_split [of "k - 52" k] by (simp add: mult.commute)
  qed
  have d: "(2::int) ^ k div 2 ^ (k - 52) = 2 ^ 52" and m: "(2::int) ^ k mod 2 ^ (k - 52) = 0"
    by (simp_all add: split)
  have "js_round (2 ^ k) = sgn ((2::int) ^ k) * (2 ^ 52 * 2 ^ (k - 52))"
    unfolding js_round_def Let_def using ge
    by (simp only: if_False abs2 bl n d m) simp
  then show ?thesis using split by simp
qed

text \<open>Rounding does not cross a power of two.\<close>

lemma js_round_le_pow2:
  assumes "0 \<le> x" and "x \<le> 2 ^ k"
  shows "js_round x \<le> 2 ^ k"
proof (cases "x < 2 ^ 53")
  case True
  with assms show ?thesis by (simp add: js_round_def)
next
  case False
  then have x53: "2 ^ 53 \<le> x" by simp
  then have xpos: "0 < x" by (smt (verit) zero_less_power)
  define b where "b = nat (bitlen x)"
  have nb: "nat (bitlen x - 1) = b - 1" unfolding b_def by arith
  have bb: "2 ^ (b - 1) \<le> x" "x < 2 ^ b" and bl: "bitlen x = int b"
    using bitlen_bounds [OF xpos] bitlen_nonneg [of x] nb
    by (simp_all add: b_def)
  have b54: "54 \<le> b"
  proof (rule ccontr)
    assume "\<not> 54 \<le> b"
    then have "b \<le> 53" by simp
    then have "(2::int) ^ b \<le> 2 ^ 53" by (rule power_increasing) simp
    with bb(2) x53 show False by linarith
  qed
  define u :: int where "u = 2 ^ (b - 53)"
  have upos: "0 < u" by (simp add: u_def)
  have ub: "u * 2 ^ 53 = 2 ^ b"
    using b54 pow2_split [of 53 b] by (simp only: u_def)
  show ?thesis
  proof (cases "x = 2 ^ k")
    case True
    have "js_round x = x" using True js_round_pow2 [of k] by simp
    then show ?thesis using assms by simp
  next
    case False
    with assms have xk: "x < 2 ^ k" by simp
    have "b \<le> k"
    proof (rule ccontr)
      assume "\<not> b \<le> k"
      then have "k \<le> b - 1" by simp
      then have "(2::int) ^ k \<le> 2 ^ (b - 1)" by (rule power_increasing) simp
      with bb(1) xk show False by linarith
    qed
    then have bk: "(2::int) ^ b \<le> 2 ^ k" by (rule power_increasing) simp
    have "x div u < 2 ^ 53"
      using bb(2) ub upos by (intro int_div_less) simp_all
    then have q1: "x div u + 1 \<le> 2 ^ 53" by simp
    have "(x div u + 1) * u \<le> 2 ^ 53 * u"
      using q1 upos by (simp add: mult_right_mono)
    then have up: "(x div u + 1) * u \<le> 2 ^ b" using ub by (simp add: mult.commute)
    have dn: "(x div u) * u \<le> (x div u + 1) * u" using upos by (simp add: distrib_right)
    have "js_round x \<le> (x div u + 1) * u"
      using \<open>\<not> x < 2 ^ 53\<close> xpos upos b54 bl dn
      by (auto simp add: js_round_def Let_def u_def nat_diff_distrib)
    with up bk show ?thesis by linarith
  qed
qed

text \<open>Integers of magnitude up to \<open>2 ^ 53\<close> are doubles.\<close>

lemma js_round_exact: "abs x \<le> 2 ^ 53 \<Longrightarrow> js_round x = x"
proof (cases "abs x < 2 ^ 53")
  case True
  then show ?thesis by (simp add: js_round_def)
next
  case False
  assume "abs x \<le> 2 ^ 53"
  with False have "x = 2 ^ 53 \<or> x = - (2 ^ 53)" by linarith
  then show ?thesis
    using js_round_pow2 [of 53] js_round_minus [of "2 ^ 53"] by auto
qed


section \<open>The Fibonacci kernel\<close>

declare fib_loop.simps [simp del]

lemma fib_loop_length:
  "length (fib_loop n res) = (if int (length res) < n then nat n else length res)"
proof (induction n res rule: fib_loop.induct)
  case (1 n res)
  show ?case
  proof (cases "int (length res) < n")
    case True
    then show ?thesis
      using "1.IH" by (subst fib_loop.simps) (auto split: if_splits)
  next
    case False
    then show ?thesis by (subst fib_loop.simps) simp
  qed
qed

lemma fib_loop_prefix:
  "i < length res \<Longrightarrow> fib_loop n res ! i = res ! i"
proof (induction n res rule: fib_loop.induct)
  case (1 n res)
  show ?case
  proof (cases "int (length res) < n")
    case True
    then show ?thesis
      using "1.IH" "1.prems" by (subst fib_loop.simps) (simp add: nth_append)
  next
    case False
    then show ?thesis by (subst fib_loop.simps) simp
  qed
qed

lemma fib_loop_step:
  "2 \<le> length res \<Longrightarrow> length res \<le> i \<Longrightarrow> int i < n \<Longrightarrow>
   fib_loop n res ! i = js_add (fib_loop n res ! (i - 1)) (fib_loop n res ! (i - 2))"
proof (induction n res rule: fib_loop.induct)
  case (1 n res)
  let ?v = "js_add (res ! (length res - 1)) (res ! (length res - 2))"
  let ?res' = "res @ [?v]"
  from "1.prems" have lt: "int (length res) < n" by linarith
  have unfold: "fib_loop n res = fib_loop n ?res'"
    using lt by (subst fib_loop.simps) simp
  show ?case
  proof (cases "i = length res")
    case True
    have a: "fib_loop n ?res' ! i = ?v"
      using True by (simp add: fib_loop_prefix)
    have l1: "length res - 1 < length res" and l2: "length res - 2 < length res"
      using "1.prems"(1) by arith+
    have b: "fib_loop n ?res' ! (i - 1) = res ! (length res - 1)"
      using True l1 by (simp add: fib_loop_prefix nth_append)
    have c: "fib_loop n ?res' ! (i - 2) = res ! (length res - 2)"
      using True l2 by (simp add: fib_loop_prefix nth_append)
    show ?thesis unfolding unfold a b c ..
  next
    case False
    with "1.prems" have "length ?res' \<le> i" "2 \<le> length ?res'" by simp_all
    with "1.IH" [OF lt] "1.prems"(3) show ?thesis unfolding unfold by blast
  qed
qed

lemma fib_exact_rec: "fib_exact (Suc (Suc k)) = fib_exact (Suc k) + fib_exact k"
  by (simp add: fib_exact_def split: prod.splits)

lemma fib_exact_rec': "2 \<le> i \<Longrightarrow> fib_exact i = fib_exact (i - 1) + fib_exact (i - 2)"
proof -
  assume "2 \<le> i"
  then have j: "i = Suc (Suc (i - 2))" "i - 1 = Suc (i - 2)" by arith+
  show ?thesis using fib_exact_rec [of "i - 2"] j by simp
qed

lemma fib_exact_nonneg: "0 \<le> fib_exact k \<and> 0 \<le> snd (fib_pair k)"
  by (induction k) (auto simp add: fib_exact_def split: prod.splits)

lemma fib_exact_mono_Suc: "fib_exact k \<le> fib_exact (Suc k)"
proof (cases k)
  case 0
  then show ?thesis by (simp add: fib_exact_def)
next
  case (Suc j)
  then show ?thesis using fib_exact_rec [of j] fib_exact_nonneg [of j] by simp
qed

lemma fib_exact_mono: "i \<le> j \<Longrightarrow> fib_exact i \<le> fib_exact j"
  by (rule lift_Suc_mono_le [of fib_exact]) (rule fib_exact_mono_Suc)

lemma fib_exact_78: "fib_exact 78 = 8944394323791464"
  by code_simp

text \<open>The terms up to index 78 are below \<open>2 ^ 53\<close>, so they are doubles.\<close>

lemma fib_exact_small: "i \<le> 78 \<Longrightarrow> js_round (fib_exact i) = fib_exact i"
proof -
  assume "i \<le> 78"
  then have "fib_exact i \<le> fib_exact 78" by (rule fib_exact_mono)
  then have "fib_exact i \<le> 8944394323791464" by (simp only: fib_exact_78)
  moreover have "0 \<le> fib_exact i" using fib_exact_nonneg [of i] by blast
  ultimately have "abs (fib_exact i) \<le> 2 ^ 53" by simp
  then show ?thesis by (rule js_round_exact)
qed

lemma fibSeries_length: "length (fibSeries n) = nat n"
  by (auto simp add: fibSeries_def fib_loop_length)

lemma fibSeries_0: "1 \<le> n \<Longrightarrow> fibSeries n ! 0 = 0"
  by (simp add: fibSeries_def fib_loop_prefix)

lemma fibSeries_1: "2 \<le> n \<Longrightarrow> fibSeries n ! Suc 0 = 1"
  by (simp add: fibSeries_def fib_loop_prefix)

lemma fibSeries_step:
  assumes "2 \<le> i" and "i < nat n"
  shows "fibSeries n ! i = js_add (fibSeries n ! (i - 1)) (fibSeries n ! (i - 2))"
proof -
  from assms have n: "\<not> n \<le> 0" "n \<noteq> 1" and i: "int i < n" by linarith+
  show ?thesis
    using assms(1) i fib_loop_step [of "[0, 1]" i n] by (simp add: fibSeries_def n)
qed

lemma fibSeries_bound:
  "i < nat n \<Longrightarrow> 0 \<le> fibSeries n ! i \<and> fibSeries n ! i \<le> 2 ^ i"
proof (induction i rule: less_induct)
  case (less i)
  consider "i = 0" | "i = 1" | "2 \<le> i" by linarith
  then show ?case
  proof cases
    case 1
    with less.prems show ?thesis by (simp add: fibSeries_0)
  next
    case 2
    with less.prems show ?thesis by (simp add: fibSeries_1)
  next
    case 3
    let ?a = "fibSeries n ! (i - 1)" and ?b = "fibSeries n ! (i - 2)"
    have a: "0 \<le> ?a \<and> ?a \<le> 2 ^ (i - 1)" and b: "0 \<le> ?b \<and> ?b \<le> 2 ^ (i - 2)"
      using less.IH [of "i - 1"] less.IH [of "i - 2"] 3 less.prems by simp_all
    have "(2::int) ^ (i - 2) \<le> 2 ^ (i - 1)" by (intro power_increasing) simp_all
    moreover have "(2::int) ^ i = 2 * 2 ^ (i - 1)"
      using 3 by (cases i) simp_all
    ultimately have s: "?a + ?b \<le> 2 ^ i" using a b by linarith
    have eq: "fibSeries n ! i = js_round (?a + ?b)"
      using fibSeries_step [OF 3 less.prems] by (simp add: js_add_def)
    show ?thesis
      unfolding eq using a b s by (simp add: js_round_nonneg js_round_le_pow2)
  qed
qed

lemma fibSeries_exact:
  "i < nat n \<Longrightarrow> i \<le> 78 \<Longrightarrow> fibSeries n ! i = fib_exact i"
proof (induction i rule: less_induct)
  case (less i)
  consider "i = 0" | "i = 1" | "2 \<le> i" by linarith
  then show ?case
  proof cases
    case 1
    with less.prems show ?thesis by (simp add: fibSeries_0 fib_exact_def)
  next
    case 2
    with less.prems show ?thesis by (simp add: fibSeries_1 fib_exact_def)
  next
    case 3
    have lt: "i - 1 < i" "i - 2 < i" "i - 1 < nat n" "i - 2 < nat n" "i - 1 \<le> 78" "i - 2 \<le> 78"
      using 3 less.prems by linarith+
    have a: "fibSeries n ! (i - 1) = fib_exact (i - 1)"
      using lt by (intro less.IH)
    have b: "fibSeries n ! (i - 2) = fib_exact (i - 2)"
      using lt by (intro less.IH)
    have "fibSeries n ! i = js_round (fib_exact (i - 1) + fib_exact (i - 2))"
      unfolding fibSeries_step [OF 3 less.prems(1)] a b js_add_def ..
    also have "\<dots> = js_round (fib_exact i)" using fib_exact_rec' [OF 3] by simp
    also have "\<dots> = fib_exact i" using less.prems(2) by (rule fib_exact_small)
    finally show ?thesis .
  qed
qed

text \<open>
  Claim C3, as the program has it. For every integer \<open>n\<close> in \<open>[1, 1000]\<close>, \<open>fibSeries n\<close> has
  exactly \<open>n\<close> elements, the first is 0, the second (when \<open>n \<ge> 2\<close>) is 1, and every later
  element is the sum of the two elements before it rounded to the nearest double. The sum
  is the exact one for every element up to index 78 (the first 79 terms), and no element
  reaches the range where a double overflows.
\<close>

theorem fibSeries_rounded_recurrence:
  assumes "1 \<le> n" and "n \<le> 1000"
  shows "length (fibSeries n) = nat n
       \<and> fibSeries n ! 0 = 0
       \<and> (2 \<le> n \<longrightarrow> fibSeries n ! 1 = 1)
       \<and> (\<forall>i. 2 \<le> i \<and> i < nat n \<longrightarrow>
             fibSeries n ! i = js_round (fibSeries n ! (i - 1) + fibSeries n ! (i - 2))
           \<and> (i \<le> 78 \<longrightarrow> fibSeries n ! i = fibSeries n ! (i - 1) + fibSeries n ! (i - 2)))
       \<and> (\<forall>i < nat n. 0 \<le> fibSeries n ! i \<and> fibSeries n ! i < 2 ^ 1024 - 2 ^ 970)"
proof (intro conjI allI impI)
  show "length (fibSeries n) = nat n" by (rule fibSeries_length)
  show "fibSeries n ! 0 = 0" using assms(1) by (rule fibSeries_0)
  show "fibSeries n ! 1 = 1" if "2 \<le> n" using that by (simp add: fibSeries_1)
next
  fix i assume i: "2 \<le> i \<and> i < nat n"
  then show "fibSeries n ! i = js_round (fibSeries n ! (i - 1) + fibSeries n ! (i - 2))"
    using fibSeries_step [of i n] by (simp add: js_add_def)
  assume i78: "i \<le> 78"
  have lt: "i - 1 < nat n" "i - 2 < nat n" "i - 1 \<le> 78" "i - 2 \<le> 78" "i < nat n" "2 \<le> i"
    using i i78 by linarith+
  show "fibSeries n ! i = fibSeries n ! (i - 1) + fibSeries n ! (i - 2)"
    using lt i78 by (simp add: fibSeries_exact fib_exact_rec' [of i])
next
  fix i assume i: "i < nat n"
  then show "0 \<le> fibSeries n ! i" using fibSeries_bound by blast
  have "i \<le> 999" using i assms(2) by linarith
  then have "(2::int) ^ i \<le> 2 ^ 999" by (intro power_increasing) simp_all
  moreover have "fibSeries n ! i \<le> 2 ^ i" using i fibSeries_bound by blast
  ultimately have "fibSeries n ! i \<le> 2 ^ 999" by linarith
  also have "(2::int) ^ 999 < 2 ^ 1024 - 2 ^ 970" by simp
  finally show "fibSeries n ! i < 2 ^ 1024 - 2 ^ 970" .
qed

theorem fibSeries_rounded_recurrence_witness:
  "(1::int) \<le> 5 \<and> (5::int) \<le> 1000 \<and> length (fibSeries 5) = 5 \<and> fibSeries 5 ! 0 = 0
   \<and> fibSeries 5 ! 1 = 1 \<and> fibSeries 5 ! 4 = fibSeries 5 ! 3 + fibSeries 5 ! 2"
proof -
  have h: "(1::int) \<le> 5" "(5::int) \<le> 1000" by simp_all
  note t = fibSeries_rounded_recurrence [OF h]
  from t have "length (fibSeries 5) = 5" "fibSeries 5 ! 0 = 0" "fibSeries 5 ! 1 = 1" by simp_all
  moreover from t have "2 \<le> (4::nat) \<and> 4 < nat 5 \<longrightarrow> ((4::nat) \<le> 78 \<longrightarrow>
      fibSeries 5 ! 4 = fibSeries 5 ! (4 - 1) + fibSeries 5 ! (4 - 2))" by blast
  then have "fibSeries 5 ! 4 = fibSeries 5 ! 3 + fibSeries 5 ! 2" by simp
  ultimately show ?thesis by simp
qed

text \<open>
  With the exact sum in place of the rounded one the recurrence fails at \<open>n = 80\<close>: the
  eightieth term is 14472334024676220, and the two terms before it add up to
  14472334024676221, an odd number above \<open>2 ^ 53\<close> that no double holds.
\<close>

theorem fibSeries_exact_sum_counterexample:
  "fibSeries 80 ! 79 = 14472334024676220
   \<and> fibSeries 80 ! 78 + fibSeries 80 ! 77 = 14472334024676221"
  by code_simp


section \<open>The gcd and lcm kernels\<close>

lemma js_rem_bound: "b \<noteq> 0 \<Longrightarrow> abs (js_rem a b) < abs b"
  by (simp add: js_rem_def abs_mult abs_sgn_eq)

lemma gcd_js_dom_all: "gcd_js_dom (a, b)"
proof (induction "nat (abs b)" arbitrary: a b rule: less_induct)
  case less
  show ?case
  proof (rule gcd_js.domintros)
    assume "b \<noteq> 0"
    then have "abs (js_rem (abs a) (abs b)) < abs b" using js_rem_bound [of "abs b" "abs a"] by simp
    then have "nat (abs (js_rem (abs a) (abs b))) < nat (abs b)" by simp
    then show "gcd_js_dom (abs b, js_rem (abs a) (abs b))" by (rule less)
  qed
qed


text \<open>
  Claim C8. The recursion of \<open>gcd_js\<close> terminates on every pair of integers: every pair
  is in the domain of the function (the accessible part of its call relation), because
  the second argument of the recursive call, \<open>js_rem (abs a) (abs b)\<close>, is smaller in
  absolute value than \<open>b\<close>; and \<open>gcd_js a 0\<close> is the absolute value of \<open>a\<close>.
\<close>

theorem gcd_js_terminates:
  "gcd_js_dom (a, b) \<and> (b \<noteq> 0 \<longrightarrow> abs (js_rem (abs a) (abs b)) < abs b) \<and> gcd_js a 0 = abs a"
  using gcd_js_dom_all [of a b] js_rem_bound [of "abs b" "abs a"] by simp

theorem gcd_js_terminates_witness:
  "gcd_js_dom (12, 18) \<and> abs (js_rem (abs 12) (abs 18)) < abs (18 :: int) \<and> gcd_js 12 18 = 6
   \<and> gcd_js (-7) 0 = 7"
proof -
  have "gcd_js 12 18 = 6" by code_simp
  then show ?thesis using gcd_js_terminates [of 12 18] gcd_js_terminates [of "-7" 0] by simp
qed

declare gcd_js.simps [simp del]

text \<open>On integers \<open>gcd_js\<close> is the greatest common divisor.\<close>

lemma gcd_js_eq: "gcd_js a b = gcd a b"
proof (induction a b rule: gcd_js.induct)
  case (1 a b)
  show ?case
  proof (cases "b = 0")
    case True
    then show ?thesis by (subst gcd_js.simps) simp
  next
    case False
    then have "gcd_js a b = gcd \<bar>b\<bar> (js_rem \<bar>a\<bar> \<bar>b\<bar>)"
      using "1.IH" by (subst gcd_js.simps) simp
    also have "js_rem \<bar>a\<bar> \<bar>b\<bar> = \<bar>a\<bar> mod \<bar>b\<bar>"
      by (cases "a = 0") (simp_all add: js_rem_def)
    also have "gcd \<bar>b\<bar> (\<bar>a\<bar> mod \<bar>b\<bar>) = gcd \<bar>a\<bar> \<bar>b\<bar>"
      by (metis gcd.commute gcd_red_int)
    finally show ?thesis by simp
  qed
qed

lemma foldl_gcd_js: "foldl gcd_js a xs = (if xs = [] then a else Gcd (set (a # xs)))"
proof (induction xs arbitrary: a)
  case Nil
  show ?case by simp
next
  case (Cons x xs)
  show ?case
    by (simp add: Cons.IH [of "gcd_js a x"]) (simp add: gcd_js_eq gcd.assoc)
qed

lemma gcdArray_eq:
  "arr \<noteq> [] \<Longrightarrow> gcdArray arr = Inr (if length arr = 1 then hd arr else Gcd (set arr))"
  by (cases arr) (auto simp add: gcdArray_def foldl_gcd_js)

lemma gcdArray_perm:
  assumes "mset xs = mset ys" and "xs \<noteq> []"
  shows "gcdArray xs = gcdArray ys"
proof -
  have s: "set xs = set ys" using assms(1) by (rule mset_eq_setD)
  have l: "length xs = length ys" using assms(1) by (rule mset_eq_length)
  have ys: "ys \<noteq> []" using l assms(2) by auto
  show ?thesis
  proof (cases "length xs = 1")
    case True
    then obtain a where a: "xs = [a]" by (cases xs) auto
    with assms(1) have "ys = [a]" by simp
    with a show ?thesis by simp
  next
    case False
    then show ?thesis using s l assms(2) ys by (simp add: gcdArray_eq)
  qed
qed

lemma gcdArray_dvd:
  assumes "gcdArray xs = Inr g" and "x \<in> set xs"
  shows "g dvd x"
proof -
  from assms(2) have ne: "xs \<noteq> []" by auto
  show ?thesis
  proof (cases "length xs = 1")
    case True
    then obtain a where a: "xs = [a]" by (cases xs) auto
    with assms show ?thesis by (simp add: gcdArray_def)
  next
    case False
    with assms ne show ?thesis by (auto simp add: gcdArray_eq)
  qed
qed


lemma lcm2_zero: "lcm2 0 b = 0" "lcm2 a 0 = 0"
  by (simp_all add: lcm2_def)

lemma lcm2_exact:
  assumes "lcm a b \<le> 2 ^ 53"
  shows "lcm2 a b = lcm a b"
proof (cases "a = 0 \<or> b = 0")
  case True
  then show ?thesis by (auto simp add: lcm2_def)
next
  case False
  have "gcd a b dvd a" by simp
  then have "a div gcd a b * b = a * b div gcd a b" by (rule dvd_div_mult)
  then have "\<bar>a div gcd a b * b\<bar> = lcm a b" by (simp add: lcm_gcd)
  with assms have "js_round (a div gcd a b * b) = a div gcd a b * b"
    by (intro js_round_exact) simp
  then show ?thesis
    using False \<open>\<bar>a div gcd a b * b\<bar> = lcm a b\<close> by (simp add: lcm2_def js_mul_def gcd_js_eq)
qed

lemma foldl_lcm2_zero_acc: "foldl lcm2 0 xs = 0"
  by (induction xs) (simp_all add: lcm2_zero)

lemma foldl_lcm2_zero_elem: "0 \<in> set xs \<Longrightarrow> foldl lcm2 a xs = 0"
proof (induction xs arbitrary: a)
  case Nil
  then show ?case by simp
next
  case (Cons x xs)
  then show ?case by (cases "x = 0") (auto simp add: lcm2_zero foldl_lcm2_zero_acc)
qed

lemma foldl_lcm2_nonzero:
  "0 \<notin> set (a # xs) \<Longrightarrow> Lcm (set (a # xs)) \<le> 2 ^ 53 \<Longrightarrow>
   foldl lcm2 a xs = (if xs = [] then a else Lcm (set (a # xs)))"
proof (induction xs arbitrary: a)
  case Nil
  show ?case by simp
next
  case (Cons x xs)
  let ?L = "Lcm (set (a # x # xs))"
  have fin: "finite (set (a # x # xs))" by simp
  have nz: "?L \<noteq> 0" using Cons.prems(1) by (simp add: lcm_eq_0_iff Lcm_0_iff)
  then have pos: "0 < ?L" using Lcm_int_greater_eq_0 [of "set (a # x # xs)"] by linarith
  have "lcm a x dvd ?L" by (simp add: lcm.assoc)
  then have "lcm a x \<le> ?L" using pos by (rule zdvd_imp_le)
  with Cons.prems(2) have le: "lcm a x \<le> 2 ^ 53" by linarith
  have step: "lcm2 a x = lcm a x" using le by (rule lcm2_exact)
  have nz': "0 \<notin> set (lcm a x # xs)" using Cons.prems(1) by (auto simp add: lcm_eq_0_iff)
  have same: "Lcm (set (lcm a x # xs)) = ?L" by (simp add: lcm.assoc)
  have "foldl lcm2 (lcm a x) xs = (if xs = [] then lcm a x else ?L)"
    using Cons.IH [OF nz'] Cons.prems(2) same by simp
  then show ?case by (simp add: step)
qed

lemma lcmArray_eq:
  assumes "xs \<noteq> []" and "Lcm (set xs) \<le> 2 ^ 53"
  shows "lcmArray xs = Inr (if length xs = 1 then hd xs else Lcm (set xs))"
proof -
  from assms(1) obtain a ys where xs: "xs = a # ys" by (cases xs) auto
  show ?thesis
  proof (cases "0 \<in> set xs")
    case False
    then show ?thesis
      using foldl_lcm2_nonzero [of a ys] assms(2) by (simp add: xs lcmArray_def)
  next
    case True
    have L0: "Lcm (set xs) = 0" using True by (simp add: Lcm_0_iff)
    show ?thesis
    proof (cases "ys = []")
      case True
      then show ?thesis by (simp add: xs lcmArray_def)
    next
      case False
      have "foldl lcm2 a ys = 0"
      proof (cases "0 \<in> set ys")
        case True
        then show ?thesis by (rule foldl_lcm2_zero_elem)
      next
        case False
        with \<open>0 \<in> set xs\<close> have "a = 0" by (simp add: xs)
        then show ?thesis by (simp add: foldl_lcm2_zero_acc)
      qed
      then show ?thesis using False L0 by (simp add: xs lcmArray_def)
    qed
  qed
qed

text \<open>
  Claim C5, as the program has it. On a non-empty list \<open>gcdArray\<close> returns the same value
  for every permutation of the list, and its result divides every element. \<open>lcmArray\<close>
  returns a multiple of every element whenever the least common multiple of the list is at
  most \<open>2 ^ 53\<close>, so that no product of the fold is rounded.
\<close>

theorem gcdArray_lcmArray_properties:
  assumes "xs \<noteq> []"
  shows "(\<forall>ys. mset ys = mset xs \<longrightarrow> gcdArray ys = gcdArray xs)
       \<and> (\<exists>g. gcdArray xs = Inr g \<and> (\<forall>x\<in>set xs. g dvd x))
       \<and> (Lcm (set xs) \<le> 2 ^ 53 \<longrightarrow> (\<exists>m. lcmArray xs = Inr m \<and> (\<forall>x\<in>set xs. x dvd m)))"
proof (intro conjI allI impI)
  fix ys assume "mset ys = mset xs"
  then show "gcdArray ys = gcdArray xs" using assms gcdArray_perm [of xs ys] by simp
next
  show "\<exists>g. gcdArray xs = Inr g \<and> (\<forall>x\<in>set xs. g dvd x)"
    using assms gcdArray_eq [OF assms] gcdArray_dvd [of xs] by auto
next
  assume L: "Lcm (set xs) \<le> 2 ^ 53"
  let ?m = "if length xs = 1 then hd xs else Lcm (set xs)"
  have "\<forall>x\<in>set xs. x dvd ?m"
  proof (cases "length xs = 1")
    case True
    then obtain a where "xs = [a]" by (cases xs) auto
    then show ?thesis by simp
  next
    case False
    then show ?thesis by (auto intro: dvd_Lcm)
  qed
  then show "\<exists>m. lcmArray xs = Inr m \<and> (\<forall>x\<in>set xs. x dvd m)"
    using lcmArray_eq [OF assms L] by blast
qed

text \<open>
  Without the bound the product is rounded: the least common multiple of the coprime numbers
  \<open>2 ^ 27 + 1\<close> and \<open>2 ^ 27 - 1\<close> is \<open>2 ^ 54 - 1\<close>, the program returns the
  double \<open>2 ^ 54\<close>, and that is a multiple of neither.
\<close>

theorem lcmArray_multiple_counterexample:
  "lcmArray [134217729, 134217727] = Inr 18014398509481984
   \<and> \<not> 134217729 dvd (18014398509481984 :: int)"
  by code_simp

theorem gcdArray_lcmArray_properties_witness:
  "[4, 6, -10] \<noteq> ([] :: int list) \<and> gcdArray [6, -10, 4] = gcdArray [4, 6, -10]
   \<and> gcdArray [4, 6, -10] = Inr 2 \<and> lcmArray [4, 6, -10] = Inr 60"
proof -
  have h: "[4, 6, -10] \<noteq> ([] :: int list)" by simp
  note t = gcdArray_lcmArray_properties [OF h]
  have "mset [6, -10, 4] = mset [4, 6, -10 :: int]" by simp
  with t have "gcdArray [6, -10, 4] = gcdArray [4, 6, -10]" by blast
  moreover have "gcdArray [4, 6, -10] = Inr 2" "lcmArray [4, 6, -10] = Inr 60" by code_simp+
  ultimately show ?thesis by simp
qed

section \<open>The primality kernel\<close>

lemma isqrt_aux_correct:
  "0 \<le> r \<Longrightarrow> r * r \<le> x \<Longrightarrow> x < (r + 2 ^ n) * (r + 2 ^ n) \<Longrightarrow>
   0 \<le> isqrt_aux n x r \<and> isqrt_aux n x r * isqrt_aux n x r \<le> x
   \<and> x < (isqrt_aux n x r + 1) * (isqrt_aux n x r + 1)"
proof (induction n arbitrary: r)
  case 0
  then show ?case by simp
next
  case (Suc n)
  show ?case
  proof (cases "(r + 2 ^ n) * (r + 2 ^ n) \<le> x")
    case True
    have "0 \<le> r + (2::int) ^ n" using Suc.prems(1) by simp
    moreover have "x < (r + 2 ^ n + 2 ^ n) * (r + 2 ^ n + 2 ^ n)"
      using Suc.prems(3) by (simp add: algebra_simps)
    ultimately show ?thesis using Suc.IH [of "r + 2 ^ n"] True by simp
  next
    case False
    then show ?thesis using Suc.IH [of r] Suc.prems by simp
  qed
qed

lemma isqrt_correct:
  assumes "0 \<le> x"
  shows "0 \<le> isqrt x \<and> isqrt x * isqrt x \<le> x \<and> x < (isqrt x + 1) * (isqrt x + 1)"
proof -
  have lt: "x < 2 ^ nat (bitlen x)"
  proof (cases "x = 0")
    case True
    then show ?thesis by simp
  next
    case False
    with assms have "0 < x" by simp
    then show ?thesis using bitlen_bounds by blast
  qed
  have "(1::int) \<le> 2 ^ nat (bitlen x)" by simp
  then have "(2::int) ^ nat (bitlen x) * 1 \<le> 2 ^ nat (bitlen x) * 2 ^ nat (bitlen x)"
    by (intro mult_left_mono) simp_all
  with lt have "x < 2 ^ nat (bitlen x) * 2 ^ nat (bitlen x)" by linarith
  then have "x < (0 + 2 ^ nat (bitlen x)) * (0 + 2 ^ nat (bitlen x))" by simp
  then show ?thesis
    unfolding isqrt_def using assms by (intro isqrt_aux_correct) simp_all
qed

lemma square_le_imp_le:
  assumes "(a::int) * a \<le> x" and "x < (b + 1) * (b + 1)" and "0 \<le> a" and "0 \<le> b"
  shows "a \<le> b"
proof (rule ccontr)
  assume "\<not> a \<le> b"
  then have "b + 1 \<le> a" by simp
  then have "(b + 1) * (b + 1) \<le> a * a" using assms(4) by (intro mult_mono) simp_all
  with assms show False by linarith
qed

lemma isqrt_unique:
  assumes "0 \<le> s" and "s * s \<le> x" and "x < (s + 1) * (s + 1)"
  shows "isqrt x = s"
proof -
  have x: "0 \<le> x" using assms(1,2) by (smt (verit) mult_nonneg_nonneg)
  note c = isqrt_correct [OF x]
  have "isqrt x \<le> s" using c assms by (intro square_le_imp_le [of "isqrt x" x s]) simp_all
  moreover have "s \<le> isqrt x" using c assms by (intro square_le_imp_le [of s x "isqrt x"]) simp_all
  ultimately show ?thesis by simp
qed

lemma isqrt_floor_sqrt:
  assumes "0 \<le> x"
  shows "isqrt x = \<lfloor>sqrt (real_of_int x)\<rfloor>"
proof -
  let ?f = "\<lfloor>sqrt (real_of_int x)\<rfloor>"
  have f0: "0 \<le> ?f" using assms by simp
  have le: "real_of_int ?f \<le> sqrt (real_of_int x)" by simp
  have lt: "sqrt (real_of_int x) < real_of_int ?f + 1" by linarith
  have "real_of_int ?f * real_of_int ?f \<le> sqrt (real_of_int x) * sqrt (real_of_int x)"
    using le f0 by (intro mult_mono) simp_all
  then have "real_of_int (?f * ?f) \<le> real_of_int x" using assms by simp
  then have a: "?f * ?f \<le> x" by (simp only: of_int_le_iff)
  have "sqrt (real_of_int x) * sqrt (real_of_int x) < (real_of_int ?f + 1) * (real_of_int ?f + 1)"
  proof -
    have "0 \<le> real_of_int ?f" using f0 by simp
    then have "0 < real_of_int ?f + 1" by linarith
    then show ?thesis using lt assms by (intro mult_strict_mono) simp_all
  qed
  then have "real_of_int x < real_of_int ((?f + 1) * (?f + 1))" using assms by simp
  then have b: "x < (?f + 1) * (?f + 1)" by (simp only: of_int_less_iff)
  show ?thesis using f0 a b by (rule isqrt_unique)
qed

text \<open>
  What the loop bound needs from \<^verbatim>\<open>Math.floor(Math.sqrt(x))\<close>: it is the integer square
  root or one more.
\<close>

lemma js_sqrt_floor_bounds:
  assumes "0 < x" and "isqrt x < 2 ^ 53"
  shows "isqrt x \<le> js_sqrt_floor x \<and> js_sqrt_floor x \<le> isqrt x + 1"
proof -
  define k where "k = isqrt x"
  have x0: "0 \<le> x" using assms(1) by simp
  have k: "0 \<le> k" "k * k \<le> x" "x < (k + 1) * (k + 1)"
    using isqrt_correct [OF x0] by (simp_all add: k_def)
  define e where "e = bitlen k - 1"
  have "bitlen k \<le> 53" using assms(2) by (simp add: bitlen_le_iff_power k_def)
  then have e52: "e \<le> 52" by (simp add: e_def)
  define t where "t = nat (52 - e)"
  define T :: int where "T = 2 ^ t"
  have T: "1 \<le> T" "0 < T" by (simp_all add: T_def)
  have four: "(4::int) ^ t = T * T"
    by (simp add: T_def flip: power_mult_distrib)
  define X where "X = x * 4 ^ t"
  have X0: "0 \<le> X" using x0 by (simp add: X_def)
  define m where "m = isqrt X"
  have m: "0 \<le> m" "m * m \<le> X" "X < (m + 1) * (m + 1)"
    using isqrt_correct [OF X0] by (simp_all add: m_def)
  define m' where "m' = (if m * m + m < X then m + 1 else m)"
  have res: "js_sqrt_floor x = m' div T"
    using assms(1) e52
    by (simp add: js_sqrt_floor_def Let_def k_def [symmetric] e_def [symmetric]
        t_def [symmetric] X_def [symmetric] m_def [symmetric] m'_def T_def)
  have "(k * T) * (k * T) = (k * k) * (T * T)" by (simp add: algebra_simps)
  also have "\<dots> \<le> x * (T * T)" using k(2) T by (intro mult_right_mono) simp_all
  finally have "(k * T) * (k * T) \<le> X" by (simp add: X_def four)
  then have lo: "k * T \<le> m"
    using m k(1) T by (intro square_le_imp_le [of "k * T" X m]) simp_all
  have "x + 1 \<le> (k + 1) * (k + 1)" using k(3) by simp
  then have "(x + 1) * (T * T) \<le> ((k + 1) * (k + 1)) * (T * T)"
    using T by (intro mult_right_mono) simp_all
  moreover have "x * (T * T) < (x + 1) * (T * T)" using T by (simp add: distrib_right)
  ultimately have "X < ((k + 1) * (k + 1)) * (T * T)" by (simp add: X_def four)
  also have "\<dots> = ((k + 1) * T - 1 + 1) * ((k + 1) * T - 1 + 1)" by (simp add: algebra_simps)
  finally have Xlt: "X < ((k + 1) * T - 1 + 1) * ((k + 1) * T - 1 + 1)" .
  have kT: "0 \<le> (k + 1) * T - 1"
  proof -
    have "1 * 1 \<le> (k + 1) * T" using k(1) T by (intro mult_mono) simp_all
    then show ?thesis by simp
  qed
  have hi: "m \<le> (k + 1) * T - 1"
    using m(2) Xlt m(1) kT by (rule square_le_imp_le)
  have m'lo: "k * T \<le> m'" and m'hi: "m' \<le> (k + 1) * T"
    using lo hi by (simp_all add: m'_def)
  have "k * T div T \<le> m' div T" using m'lo T by (intro zdiv_mono1) simp_all
  then have a: "k \<le> m' div T" using T by simp
  have "m' div T \<le> (k + 1) * T div T" using m'hi T by (intro zdiv_mono1) simp_all
  then have b: "m' div T \<le> k + 1" using T by simp
  show ?thesis using a b by (simp add: res k_def)
qed

lemma js_rem_eq_0_iff: "0 \<le> x \<Longrightarrow> 0 < i \<Longrightarrow> js_rem x i = 0 \<longleftrightarrow> i dvd x"
  by (cases "x = 0") (auto simp add: js_rem_def dvd_eq_mod_eq_0)

declare prime_loop.simps [simp del]

lemma prime_loop_iff:
  "0 < x \<Longrightarrow> 0 < i \<Longrightarrow>
   prime_loop x r i \<longleftrightarrow> (\<forall>j. i \<le> j \<and> j \<le> r \<and> even (j - i) \<longrightarrow> \<not> j dvd x)"
proof (induction x r i rule: prime_loop.induct)
  case (1 x r i)
  show ?case
  proof (cases "i \<le> r")
    case False
    then show ?thesis by (subst prime_loop.simps) auto
  next
    case True
    show ?thesis
    proof (cases "i dvd x")
      case d: True
      then have "\<not> prime_loop x r i"
        using True "1.prems" by (subst prime_loop.simps) (simp add: js_rem_eq_0_iff)
      moreover have "i \<le> i \<and> i \<le> r \<and> even (i - i) \<and> i dvd x" using True d by simp
      ultimately show ?thesis by blast
    next
      case d: False
      then have nz: "js_rem x i \<noteq> 0" using "1.prems" by (simp add: js_rem_eq_0_iff)
      have "prime_loop x r i = prime_loop x r (i + 2)"
        using True nz by (subst prime_loop.simps) simp
      also have "\<dots> \<longleftrightarrow> (\<forall>j. i + 2 \<le> j \<and> j \<le> r \<and> even (j - (i + 2)) \<longrightarrow> \<not> j dvd x)"
        using "1.IH" [OF True nz] "1.prems" by simp
      also have "\<dots> \<longleftrightarrow> (\<forall>j. i \<le> j \<and> j \<le> r \<and> even (j - i) \<longrightarrow> \<not> j dvd x)"
      proof (intro iffI allI impI)
        fix j assume h: "\<forall>j. i + 2 \<le> j \<and> j \<le> r \<and> even (j - (i + 2)) \<longrightarrow> \<not> j dvd x"
          and j: "i \<le> j \<and> j \<le> r \<and> even (j - i)"
        show "\<not> j dvd x"
        proof (cases "j = i")
          case True
          then show ?thesis using d by simp
        next
          case False
          have "j \<noteq> i + 1" using j by auto
          with False j have "i + 2 \<le> j" by linarith
          moreover have "even (j - (i + 2))" using j by simp
          ultimately show ?thesis using h j by blast
        qed
      next
        fix j assume h: "\<forall>j. i \<le> j \<and> j \<le> r \<and> even (j - i) \<longrightarrow> \<not> j dvd x"
          and j: "i + 2 \<le> j \<and> j \<le> r \<and> even (j - (i + 2))"
        have "i \<le> j \<and> j \<le> r \<and> even (j - i)" using j by simp
        then show "\<not> j dvd x" using h by blast
      qed
      finally show ?thesis .
    qed
  qed
qed

text \<open>A double of magnitude \<open>2 ^ 53\<close> or more is even.\<close>

lemma double_ge_2_53_even:
  assumes "js_round x = x" and "2 ^ 53 \<le> abs x"
  shows "even x"
proof -
  have "54 \<le> bitlen (abs x)" using assms(2) by (simp add: bitlen_ge_iff_power)
  then have "nat (bitlen (abs x) - 53) = Suc (nat (bitlen (abs x) - 54))" by arith
  then have ev: "even ((2::int) ^ nat (bitlen (abs x) - 53))" by simp
  have "\<not> abs x < 2 ^ 53" using assms(2) by simp
  then have "x = sgn x * ((if 2 ^ nat (bitlen (abs x) - 53) < 2 * (abs x mod 2 ^ nat (bitlen (abs x) - 53))
        \<or> (2 * (abs x mod 2 ^ nat (bitlen (abs x) - 53)) = 2 ^ nat (bitlen (abs x) - 53)
            \<and> odd (abs x div 2 ^ nat (bitlen (abs x) - 53)))
      then abs x div 2 ^ nat (bitlen (abs x) - 53) + 1
      else abs x div 2 ^ nat (bitlen (abs x) - 53)) * 2 ^ nat (bitlen (abs x) - 53))"
    using assms(1) unfolding js_round_def Let_def by (simp only: if_False)
  then obtain s q where "x = s * (q * 2 ^ nat (bitlen (abs x) - 53))" by blast
  then show ?thesis using ev by (metis dvd_mult dvd_mult2 dvd_triv_right even_mult_iff)
qed

lemma odd_composite_factor:
  assumes "odd x" and "1 < d" and "d < x" and "d dvd x"
  shows "\<exists>j. 3 \<le> j \<and> j \<le> isqrt x \<and> odd j \<and> j dvd x"
proof -
  from assms(4) obtain e where e: "x = d * e" by (auto simp: dvd_def)
  have x0: "0 \<le> x" using assms by simp
  have epos: "1 < e"
  proof (rule ccontr)
    assume "\<not> 1 < e"
    then have "e \<le> 1" by simp
    then have "d * e \<le> d * 1" using assms(2) by (intro mult_left_mono) simp_all
    with e assms(3) show False by simp
  qed
  have od: "odd d" "odd e" using assms(1) e by simp_all
  define j where "j = min d e"
  have j1: "1 < j" "odd j" "j dvd x" using assms(2) epos od e by (auto simp add: j_def min_def)
  have "j \<noteq> 2" using j1(2) by auto
  with j1(1) have j3: "3 \<le> j" by linarith
  have "j * j \<le> d * e" using assms(2) epos by (intro mult_mono) (simp_all add: j_def)
  then have "j * j \<le> x" using e by simp
  then have "j \<le> isqrt x"
    using isqrt_correct [OF x0] j3 by (intro square_le_imp_le [of j x "isqrt x"]) simp_all
  with j3 j1 show ?thesis by blast
qed

lemma isqrt_succ_less:
  assumes "5 \<le> x"
  shows "isqrt x + 1 < x" and "isqrt x \<le> x"
proof -
  have x0: "0 \<le> x" using assms by simp
  note c = isqrt_correct [OF x0]
  show "isqrt x + 1 < x"
  proof (cases "isqrt x \<le> 1")
    case True
    with assms show ?thesis by linarith
  next
    case False
    then have "2 * isqrt x \<le> isqrt x * isqrt x" by (intro mult_right_mono) simp_all
    with c False show ?thesis by linarith
  qed
  then show "isqrt x \<le> x" by simp
qed

lemma isPrimeNum_odd:
  assumes "3 < x" and "odd x" and "x < 2 ^ 53"
  shows "isPrimeNum x \<longleftrightarrow> (\<forall>i. 3 \<le> i \<and> i \<le> isqrt x \<and> odd i \<longrightarrow> \<not> i dvd x)"
    and "isPrimeNum x \<longleftrightarrow> is_prime x"
proof -
  have x5: "5 \<le> x" using assms(1,2) by presburger
  have xpos: "0 < x" "0 \<le> x" using assms(1) by simp_all
  have "isqrt x < 2 ^ 53" using isqrt_succ_less(2) [OF x5] assms(3) by linarith
  note b = js_sqrt_floor_bounds [OF xpos(1) this]
  define r where "r = js_sqrt_floor x"
  have r: "isqrt x \<le> r" "r < x" using b isqrt_succ_less(1) [OF x5] by (simp_all add: r_def)
  have odd2: "js_rem x 2 \<noteq> 0" using assms(2) xpos by (simp add: js_rem_eq_0_iff)
  have loop: "isPrimeNum x \<longleftrightarrow> (\<forall>j. 3 \<le> j \<and> j \<le> r \<and> even (j - 3) \<longrightarrow> \<not> j dvd x)"
    using assms(1) odd2 prime_loop_iff [of x 3 r] xpos by (simp add: isPrimeNum_def r_def)
  have A: "is_prime x \<Longrightarrow> (\<forall>j. 3 \<le> j \<and> j \<le> r \<and> even (j - 3) \<longrightarrow> \<not> j dvd x)"
    using r by (auto simp add: is_prime_def)
  have B: "(\<forall>j. 3 \<le> j \<and> j \<le> r \<and> even (j - 3) \<longrightarrow> \<not> j dvd x) \<Longrightarrow>
      (\<forall>i. 3 \<le> i \<and> i \<le> isqrt x \<and> odd i \<longrightarrow> \<not> i dvd x)"
    using r by auto
  have C: "(\<forall>i. 3 \<le> i \<and> i \<le> isqrt x \<and> odd i \<longrightarrow> \<not> i dvd x) \<Longrightarrow> is_prime x"
    unfolding is_prime_def using odd_composite_factor [OF assms(2)] assms(1) by (metis less_trans one_less_numeral_iff semiring_norm(77))
  show "isPrimeNum x \<longleftrightarrow> (\<forall>i. 3 \<le> i \<and> i \<le> isqrt x \<and> odd i \<longrightarrow> \<not> i dvd x)"
    using loop A B C by blast
  show "isPrimeNum x \<longleftrightarrow> is_prime x"
    using loop A B C by blast
qed

lemma isPrimeNum_small: "x \<le> 1 \<Longrightarrow> \<not> isPrimeNum x" "isPrimeNum 2" "isPrimeNum 3"
  by (simp_all add: isPrimeNum_def)

lemma isPrimeNum_even: "2 < x \<Longrightarrow> even x \<Longrightarrow> \<not> isPrimeNum x"
  by (cases "x \<le> 3") (auto simp add: isPrimeNum_def js_rem_eq_0_iff)

lemma is_prime_small: "x \<le> 1 \<Longrightarrow> \<not> is_prime x" "is_prime 2" "is_prime 3"
proof -
  show "x \<le> 1 \<Longrightarrow> \<not> is_prime x" by (simp add: is_prime_def)
  show "is_prime 2" by (auto simp add: is_prime_def)
  have "\<not> (2::int) dvd 3" by simp
  moreover have "\<And>d::int. 1 < d \<Longrightarrow> d < 3 \<Longrightarrow> d = 2" by simp
  ultimately show "is_prime 3" unfolding is_prime_def by (metis one_less_numeral_iff semiring_norm(77))
qed

lemma is_prime_even: "2 < x \<Longrightarrow> even x \<Longrightarrow> \<not> is_prime x"
  unfolding is_prime_def by (metis one_less_numeral_iff semiring_norm(76))

text \<open>An odd double above 3 is below \<open>2 ^ 53\<close>, so the trial division decides primality.\<close>

lemma odd_double_small:
  assumes "js_round x = x" and "odd x"
  shows "x < 2 ^ 53"
proof (rule ccontr)
  assume "\<not> x < 2 ^ 53"
  then have "2 ^ 53 \<le> abs x" by simp
  with assms(1) have "even x" by (rule double_ge_2_53_even)
  with assms(2) show False by simp
qed

lemma isPrimeNum_is_prime:
  assumes "js_round x = x"
  shows "isPrimeNum x \<longleftrightarrow> is_prime x"
proof (cases "x \<le> 1")
  case True
  then show ?thesis by (simp add: isPrimeNum_small is_prime_small)
next
  case False
  show ?thesis
  proof (cases "x \<le> 3")
    case True
    with False have "x = 2 \<or> x = 3" by linarith
    then show ?thesis by (auto simp add: isPrimeNum_small is_prime_small)
  next
    case g3: False
    show ?thesis
    proof (cases "even x")
      case True
      then show ?thesis using g3 by (simp add: isPrimeNum_even is_prime_even)
    next
      case False
      then show ?thesis
        using g3 odd_double_small [OF assms] by (intro isPrimeNum_odd(2)) simp_all
    qed
  qed
qed

lemma filter_isPrimeNum:
  assumes "\<forall>x \<in> set nums. js_round x = x"
  shows "filter isPrimeNum nums = filter is_prime nums"
  by (rule filter_cong [OF refl]) (use assms isPrimeNum_is_prime in blast)

text \<open>
  Claim C4. For every integer \<open>x\<close> that is a JavaScript number (a double: \<open>js_round x = x\<close>),
  \<open>isPrimeNum x\<close> holds exactly when \<open>x\<close> is prime. It is false for \<open>x \<le> 1\<close>, true for 2
  and 3, false for every even \<open>x > 2\<close>, and for an odd \<open>x > 3\<close> it is true exactly when no
  odd integer in \<open>[3, floor (sqrt x)]\<close> divides \<open>x\<close>; \<open>isPrimeNum 1\<close> and \<open>isPrimeNum 9\<close> are
  false and \<open>isPrimeNum 2\<close> is true.
\<close>

theorem isPrimeNum_trial_division:
  assumes "js_round x = x"
  shows "(isPrimeNum x \<longleftrightarrow> is_prime x)
       \<and> (x \<le> 1 \<longrightarrow> \<not> isPrimeNum x)
       \<and> isPrimeNum 2 \<and> isPrimeNum 3
       \<and> (2 < x \<and> even x \<longrightarrow> \<not> isPrimeNum x)
       \<and> (3 < x \<and> odd x \<longrightarrow>
            (isPrimeNum x \<longleftrightarrow>
              (\<forall>i. 3 \<le> i \<and> i \<le> \<lfloor>sqrt (real_of_int x)\<rfloor> \<and> odd i \<longrightarrow> \<not> i dvd x)))
       \<and> \<not> isPrimeNum 1 \<and> \<not> isPrimeNum 9"
proof -
  have main: "isPrimeNum x \<longleftrightarrow> is_prime x" using assms by (rule isPrimeNum_is_prime)
  have trial: "isPrimeNum x \<longleftrightarrow>
      (\<forall>i. 3 \<le> i \<and> i \<le> \<lfloor>sqrt (real_of_int x)\<rfloor> \<and> odd i \<longrightarrow> \<not> i dvd x)"
    if "3 < x" "odd x"
  proof -
    have "isqrt x = \<lfloor>sqrt (real_of_int x)\<rfloor>" using that(1) by (intro isqrt_floor_sqrt) simp
    then show ?thesis
      using isPrimeNum_odd(1) [OF that odd_double_small [OF assms that(2)]] by simp
  qed
  have nine: "\<not> isPrimeNum 9" by code_simp
  show ?thesis
    using main trial nine isPrimeNum_small isPrimeNum_even [of x] by blast
qed

theorem isPrimeNum_trial_division_witness:
  "js_round 97 = 97 \<and> isPrimeNum 97 \<and> is_prime 97"
proof -
  have h: "js_round 97 = 97" by (simp add: js_round_def)
  have p: "isPrimeNum 97" by code_simp
  from isPrimeNum_trial_division [OF h] p have "is_prime 97" by blast
  with h p show ?thesis by simp
qed

section \<open>The rate limiter: one window\<close>

lemma rate_limiter_other:
  "client_ip req \<noteq> Inr addr \<Longrightarrow> fst (rate_limiter email m req now) addr = m addr"
  by (auto simp add: rate_limiter_def Let_def split: sum.splits)

lemma rate_limiter_in_window:
  assumes "client_ip req = Inr addr" and "m addr = Some e" and "now - start e \<le> 60000"
  shows "rate_limiter email m req now =
           (m(addr \<mapsto> e\<lparr>count := count e + 1\<rparr>), verdict email (count e + 1))"
  using assms by (simp add: rate_limiter_def Let_def RATE_WINDOW_MS_def RATE_LIMIT_def verdict_def)

lemma rate_limiter_open:
  assumes "client_ip req = Inr addr"
    and "m addr = None \<or> (\<exists>e. m addr = Some e \<and> 60000 < now - start e)"
  shows "rate_limiter email m req now = (m(addr \<mapsto> \<lparr>count = 1, start = now\<rparr>), None)"
  using assms by (auto simp add: rate_limiter_def Let_def RATE_WINDOW_MS_def RATE_LIMIT_def)

lemma serve_length: "length (snd (serve email m reqs)) = length reqs"
proof (induction reqs arbitrary: m)
  case Nil
  show ?case by simp
next
  case (Cons a reqs)
  obtain req now where a: "a = (req, now)" by (cases a)
  show ?case by (simp add: a case_prod_unfold Cons.IH)
qed

lemma serve_window:
  assumes "m addr = Some \<lparr>count = c, start = t0\<rparr>"
    and "\<forall>(req, now) \<in> set reqs. client_ip req = Inr addr \<longrightarrow> now - t0 \<le> 60000"
  shows "fst (serve email m reqs) addr = Some \<lparr>count = c + int (requests_of addr reqs), start = t0\<rparr>
       \<and> (\<forall>i < length reqs. client_ip (fst (reqs ! i)) = Inr addr \<longrightarrow>
             snd (serve email m reqs) ! i = verdict email (c + int (requests_of addr (take (Suc i) reqs))))"
  using assms
proof (induction reqs arbitrary: m c)
  case Nil
  then show ?case by (simp add: requests_of_def)
next
  case (Cons a reqs)
  obtain req now where a: "a = (req, now)" by (cases a)
  obtain m' r where step: "rate_limiter email m req now = (m', r)" by (cases "rate_limiter email m req now")
  obtain m'' rs where rest: "serve email m' reqs = (m'', rs)" by (cases "serve email m' reqs")
  have win: "\<forall>(req, now) \<in> set reqs. client_ip req = Inr addr \<longrightarrow> now - t0 \<le> 60000"
    using Cons.prems(2) by simp
  show ?case
  proof (cases "client_ip req = Inr addr")
    case True
    have "now - t0 \<le> 60000" using Cons.prems(2) True by (simp add: a)
    then have "rate_limiter email m req now
        = (m(addr \<mapsto> \<lparr>count = c, start = t0\<rparr>\<lparr>count := c + 1\<rparr>), verdict email (c + 1))"
      using rate_limiter_in_window [of req addr m "\<lparr>count = c, start = t0\<rparr>" now email]
        True Cons.prems(1) by simp
    then have s: "m' = m(addr \<mapsto> \<lparr>count = c + 1, start = t0\<rparr>)" "r = verdict email (c + 1)"
      using step by simp_all
    then have m': "m' addr = Some \<lparr>count = c + 1, start = t0\<rparr>" by simp
    note ih = Cons.IH [of m' "c + 1", OF m' win]
    have cnt: "\<And>xs. requests_of addr (a # xs) = Suc (requests_of addr xs)"
      using True by (simp add: requests_of_def a)
    show ?thesis
    proof (intro conjI allI impI)
      show "fst (serve email m (a # reqs)) addr
          = Some \<lparr>count = c + int (requests_of addr (a # reqs)), start = t0\<rparr>"
        using ih rest step by (simp add: a cnt [unfolded a])
    next
      fix i assume i: "i < length (a # reqs)" and ci: "client_ip (fst ((a # reqs) ! i)) = Inr addr"
      show "snd (serve email m (a # reqs)) ! i
          = verdict email (c + int (requests_of addr (take (Suc i) (a # reqs))))"
      proof (cases i)
        case 0
        then show ?thesis using step rest s by (simp add: a requests_of_def True)
      next
        case (Suc j)
        then have "snd (serve email m' reqs) ! j
            = verdict email (c + 1 + int (requests_of addr (take (Suc j) reqs)))"
          using ih i ci by simp
        then show ?thesis using step rest Suc by (simp add: a cnt [unfolded a] add.assoc)
      qed
    qed
  next
    case False
    have m': "m' addr = Some \<lparr>count = c, start = t0\<rparr>"
      using rate_limiter_other [OF False, of email m now] step Cons.prems(1) by simp
    note ih = Cons.IH [of m' c, OF m' win]
    have cnt: "\<And>xs. requests_of addr (a # xs) = requests_of addr xs"
      using False by (simp add: requests_of_def a)
    show ?thesis
    proof (intro conjI allI impI)
      show "fst (serve email m (a # reqs)) addr
          = Some \<lparr>count = c + int (requests_of addr (a # reqs)), start = t0\<rparr>"
        using ih rest step by (simp add: a cnt [unfolded a])
    next
      fix i assume i: "i < length (a # reqs)" and ci: "client_ip (fst ((a # reqs) ! i)) = Inr addr"
      show "snd (serve email m (a # reqs)) ! i
          = verdict email (c + int (requests_of addr (take (Suc i) (a # reqs))))"
      proof (cases i)
        case 0
        then show ?thesis using ci False by (simp add: a)
      next
        case (Suc j)
        then have "snd (serve email m' reqs) ! j
            = verdict email (c + int (requests_of addr (take (Suc j) reqs)))"
          using ih i ci by simp
        then show ?thesis using step rest Suc by (simp add: a cnt [unfolded a])
      qed
    qed
  qed
qed

text \<open>
  Claim C1. Let a request of a client open a window at time \<open>t0\<close>: the client has no entry,
  or the request arrives more than 60000 ms after the start of its entry. The request is
  admitted and the entry becomes \<open>count = 1\<close>, \<open>start = t0\<close>. For every sequence of later
  requests, of this and of other clients, in which the client's requests arrive within
  60000 ms of \<open>t0\<close>: the \<open>k\<close>-th request of the client, counted from the one that opened
  the window, is admitted when \<open>k \<le> 120\<close> and answered with status 429 when \<open>k > 120\<close>.
\<close>

theorem rate_limiter_fixed_window:
  assumes "client_ip r0 = Inr addr"
    and "m addr = None \<or> (\<exists>e. m addr = Some e \<and> 60000 < t0 - start e)"
    and "\<forall>(req, now) \<in> set rest. client_ip req = Inr addr \<longrightarrow> now - t0 \<le> 60000"
  shows "rate_limiter email m r0 t0 = (m(addr \<mapsto> \<lparr>count = 1, start = t0\<rparr>), None)
       \<and> (\<forall>i < length ((r0, t0) # rest).
             client_ip (fst (((r0, t0) # rest) ! i)) = Inr addr \<longrightarrow>
             snd (serve email m ((r0, t0) # rest)) ! i =
               (if requests_of addr (take (Suc i) ((r0, t0) # rest)) \<le> 120 then None
                else Some (too_many_requests email)))
       \<and> status (too_many_requests email) = 429"
proof (intro conjI allI impI)
  let ?m' = "m(addr \<mapsto> \<lparr>count = 1, start = t0\<rparr>)"
  show first: "rate_limiter email m r0 t0 = (?m', None)"
    using assms(1,2) by (rule rate_limiter_open)
  show "status (too_many_requests email) = 429" by (simp add: too_many_requests_def)
  fix i assume i: "i < length ((r0, t0) # rest)"
    and ci: "client_ip (fst (((r0, t0) # rest) ! i)) = Inr addr"
  obtain m'' rs where rest: "serve email ?m' rest = (m'', rs)" by (cases "serve email ?m' rest")
  have m': "?m' addr = Some \<lparr>count = 1, start = t0\<rparr>" by simp
  note w = serve_window [of ?m' addr 1 t0 rest email, OF m' assms(3)]
  have cnt: "\<And>xs. requests_of addr ((r0, t0) # xs) = Suc (requests_of addr xs)"
    using assms(1) by (simp add: requests_of_def)
  show "snd (serve email m ((r0, t0) # rest)) ! i =
      (if requests_of addr (take (Suc i) ((r0, t0) # rest)) \<le> 120 then None
       else Some (too_many_requests email))"
  proof (cases i)
    case 0
    then show ?thesis using first rest by (simp add: cnt requests_of_def)
  next
    case (Suc j)
    then have "snd (serve email ?m' rest) ! j
        = verdict email (1 + int (requests_of addr (take (Suc j) rest)))"
      using w i ci by simp
    then show ?thesis using first rest Suc by (simp add: cnt verdict_def)
  qed
qed

theorem rate_limiter_fixed_window_witness:
  "snd (serve None Map.empty
      ((\<lparr>ip = Some (str ''10.0.0.7''), connection = None\<rparr>, 1000)
       # replicate 120 (\<lparr>ip = Some (str ''10.0.0.7''), connection = None\<rparr>, 2000))) ! 119 = None
   \<and> snd (serve None Map.empty
      ((\<lparr>ip = Some (str ''10.0.0.7''), connection = None\<rparr>, 1000)
       # replicate 120 (\<lparr>ip = Some (str ''10.0.0.7''), connection = None\<rparr>, 2000))) ! 120
     = Some (too_many_requests None)"
proof -
  let ?rq = "\<lparr>ip = Some (str ''10.0.0.7''), connection = None\<rparr>"
  let ?rest = "replicate 120 (?rq, 2000::int)"
  have c: "client_ip ?rq = Inr (str ''10.0.0.7'')" by (simp add: client_ip_def truthy_string_def str_def)
  have h2: "Map.empty (str ''10.0.0.7'') = None \<or> (\<exists>e. Map.empty (str ''10.0.0.7'') = Some e \<and> 60000 < 1000 - start e)"
    by simp
  have h3: "\<forall>(req, now) \<in> set ?rest. client_ip req = Inr (str ''10.0.0.7'') \<longrightarrow> now - 1000 \<le> 60000"
    by simp
  note t = rate_limiter_fixed_window [of ?rq "str ''10.0.0.7''" Map.empty 1000 ?rest None, OF c h2 h3]
  have n119: "requests_of (str ''10.0.0.7'') (take (Suc 119) ((?rq, 1000) # ?rest)) = 120"
    by (simp add: requests_of_def c)
  have n120: "requests_of (str ''10.0.0.7'') (take (Suc 120) ((?rq, 1000) # ?rest)) = 121"
    by (simp add: requests_of_def c)
  have f119: "client_ip (fst (((?rq, 1000) # ?rest) ! 119)) = Inr (str ''10.0.0.7'')"
    by (simp add: c)
  have f120: "client_ip (fst (((?rq, 1000) # ?rest) ! 120)) = Inr (str ''10.0.0.7'')"
    by (simp add: c)
  from t have a: "\<And>i. i < length ((?rq, 1000) # ?rest) \<Longrightarrow>
     client_ip (fst (((?rq, 1000) # ?rest) ! i)) = Inr (str ''10.0.0.7'') \<Longrightarrow>
     snd (serve None Map.empty ((?rq, 1000) # ?rest)) ! i =
       (if requests_of (str ''10.0.0.7'') (take (Suc i) ((?rq, 1000) # ?rest)) \<le> 120 then None
        else Some (too_many_requests None))" by blast
  have "snd (serve None Map.empty ((?rq, 1000) # ?rest)) ! 119 = None"
    using a [of 119] f119 n119 by simp
  moreover have "snd (serve None Map.empty ((?rq, 1000) # ?rest)) ! 120 = Some (too_many_requests None)"
    using a [of 120] f120 n120 by simp
  ultimately show ?thesis by simp
qed

text \<open>A request of the client among the first \<open>i + 1\<close> requests, when the \<open>i\<close>-th is one.\<close>

lemma requests_of_take_pos:
  assumes "i < length reqs" and "client_ip (fst (reqs ! i)) = Inr addr"
  shows "0 < requests_of addr (take (Suc i) reqs)"
proof -
  have "take (Suc i) reqs = take i reqs @ [reqs ! i]"
    using assms(1) by (rule take_Suc_conv_app_nth)
  then show ?thesis using assms(2) by (simp add: requests_of_def case_prod_unfold)
qed

text \<open>
  Every rejection, from whatever map: the client had an entry with a count of 120 or more,
  the request came within the window of the entry, and the entry is stored with the count
  incremented and the start unchanged.
\<close>

lemma rejection_increments:
  assumes "client_ip req = Inr addr" and "rate_limiter email m0 req now = (m', Some resp)"
  shows "\<exists>e. m0 addr = Some e \<and> 120 \<le> count e \<and> now - start e \<le> 60000
           \<and> m' = m0(addr \<mapsto> e\<lparr>count := count e + 1\<rparr>) \<and> resp = too_many_requests email"
proof (cases "m0 addr")
  case None
  then have "rate_limiter email m0 req now = (m0(addr \<mapsto> \<lparr>count = 1, start = now\<rparr>), None)"
    using assms(1) by (intro rate_limiter_open) simp_all
  with assms(2) show ?thesis by simp
next
  case (Some e)
  show ?thesis
  proof (cases "60000 < now - start e")
    case True
    then have "rate_limiter email m0 req now = (m0(addr \<mapsto> \<lparr>count = 1, start = now\<rparr>), None)"
      using assms(1) Some by (intro rate_limiter_open) simp_all
    with assms(2) show ?thesis by simp
  next
    case False
    then have w: "now - start e \<le> 60000" by simp
    from rate_limiter_in_window [of req addr m0 e now email, OF assms(1) Some w] assms(2)
    have "m' = m0(addr \<mapsto> e\<lparr>count := count e + 1\<rparr>)"
      and v: "verdict email (count e + 1) = Some resp"
      by simp_all
    moreover from v have "120 \<le> count e" "resp = too_many_requests email"
      by (simp_all add: verdict_def split: if_splits)
    ultimately show ?thesis using Some w by simp
  qed
qed

text \<open>
  Claim C9. A request that is rejected has incremented the counter of its client: every
  rejection, the first of a window too (count 120 before it), stores the entry with its
  count plus one and its start unchanged. Once the count of a client has reached 120,
  every later request of the client that arrives within 60000 ms of the window start is
  rejected with status 429, and the count grows by one for each: within a window the
  client is not admitted again after a rejection. A request that arrives more than
  60000 ms after the window start opens a new window and is admitted.
\<close>

theorem rate_limiter_rejection_persists:
  assumes "m addr = Some \<lparr>count = c, start = t0\<rparr>" and "120 \<le> c"
    and "\<forall>(req, now) \<in> set reqs. client_ip req = Inr addr \<longrightarrow> now - t0 \<le> 60000"
  shows "fst (serve email m reqs) addr = Some \<lparr>count = c + int (requests_of addr reqs), start = t0\<rparr>
       \<and> (\<forall>i < length reqs. client_ip (fst (reqs ! i)) = Inr addr \<longrightarrow>
             snd (serve email m reqs) ! i = Some (too_many_requests email))
       \<and> status (too_many_requests email) = 429
       \<and> (\<forall>req now m' resp. client_ip req = Inr addr \<and> rate_limiter email m req now = (m', Some resp) \<longrightarrow>
             m' addr = Some \<lparr>count = c + 1, start = t0\<rparr>)
       \<and> (\<forall>m0 req now m' resp.
             client_ip req = Inr addr \<and> rate_limiter email m0 req now = (m', Some resp) \<longrightarrow>
             (\<exists>e. m0 addr = Some e \<and> 120 \<le> count e \<and> now - start e \<le> 60000
                \<and> m' = m0(addr \<mapsto> e\<lparr>count := count e + 1\<rparr>) \<and> resp = too_many_requests email))
       \<and> (\<forall>req now. client_ip req = Inr addr \<and> now - t0 \<le> 60000 \<longrightarrow>
             rate_limiter email m req now
               = (m(addr \<mapsto> \<lparr>count = c + 1, start = t0\<rparr>), Some (too_many_requests email)))
       \<and> (\<forall>req now. client_ip req = Inr addr \<and> 60000 < now - t0 \<longrightarrow>
             rate_limiter email m req now = (m(addr \<mapsto> \<lparr>count = 1, start = now\<rparr>), None))"
proof (intro conjI allI impI)
  note w = serve_window [of m addr c t0 reqs email, OF assms(1,3)]
  show "fst (serve email m reqs) addr = Some \<lparr>count = c + int (requests_of addr reqs), start = t0\<rparr>"
    using w by blast
  show "status (too_many_requests email) = 429" by (simp add: too_many_requests_def)
  show "snd (serve email m reqs) ! i = Some (too_many_requests email)"
    if "i < length reqs" "client_ip (fst (reqs ! i)) = Inr addr" for i
    using w that assms(2) requests_of_take_pos [OF that] by (simp add: verdict_def)
  show "m' addr = Some \<lparr>count = c + 1, start = t0\<rparr>"
    if "client_ip req = Inr addr \<and> rate_limiter email m req now = (m', Some resp)" for req now m' resp
    using that assms(1)
    by (auto simp add: rate_limiter_def Let_def RATE_LIMIT_def RATE_WINDOW_MS_def split: if_splits)
  show "\<exists>e. m0 addr = Some e \<and> 120 \<le> count e \<and> now - start e \<le> 60000
          \<and> m' = m0(addr \<mapsto> e\<lparr>count := count e + 1\<rparr>) \<and> resp = too_many_requests email"
    if "client_ip req = Inr addr \<and> rate_limiter email m0 req now = (m', Some resp)"
    for m0 req now m' resp
    using that rejection_increments [of req addr email m0 now m' resp] by blast
  show "rate_limiter email m req now
      = (m(addr \<mapsto> \<lparr>count = c + 1, start = t0\<rparr>), Some (too_many_requests email))"
    if "client_ip req = Inr addr \<and> now - t0 \<le> 60000" for req now
    using that assms(1,2)
      rate_limiter_in_window [of req addr m "\<lparr>count = c, start = t0\<rparr>" now email]
    by (simp add: verdict_def)
  show "rate_limiter email m req now = (m(addr \<mapsto> \<lparr>count = 1, start = now\<rparr>), None)"
    if "client_ip req = Inr addr \<and> 60000 < now - t0" for req now
    using that assms(1) by (intro rate_limiter_open) simp_all
qed

theorem rate_limiter_rejection_persists_witness:
  "serve None [(str ''10.0.0.7'') \<mapsto> \<lparr>count = 120, start = 1000\<rparr>]
      [(\<lparr>ip = Some (str ''10.0.0.7''), connection = None\<rparr>, 2000),
       (\<lparr>ip = Some (str ''10.0.0.7''), connection = None\<rparr>, 61000)]
     = ([(str ''10.0.0.7'') \<mapsto> \<lparr>count = 122, start = 1000\<rparr>],
        [Some \<lparr>status = 429, is_success = False, official_email = None, data = None,
                error = Some (str ''Too many requests'')\<rparr>,
         Some \<lparr>status = 429, is_success = False, official_email = None, data = None,
                error = Some (str ''Too many requests'')\<rparr>])
   \<and> rate_limiter None [(str ''10.0.0.7'') \<mapsto> \<lparr>count = 120, start = 1000\<rparr>]
        \<lparr>ip = Some (str ''10.0.0.7''), connection = None\<rparr> 2000
     = ([(str ''10.0.0.7'') \<mapsto> \<lparr>count = 121, start = 1000\<rparr>],
        Some \<lparr>status = 429, is_success = False, official_email = None, data = None,
               error = Some (str ''Too many requests'')\<rparr>)
   \<and> rate_limiter None [(str ''10.0.0.7'') \<mapsto> \<lparr>count = 120, start = 1000\<rparr>]
        \<lparr>ip = Some (str ''10.0.0.7''), connection = None\<rparr> 61001
     = ([(str ''10.0.0.7'') \<mapsto> \<lparr>count = 1, start = 61001\<rparr>], None)"
proof -
  let ?a = "str ''10.0.0.7''"
  let ?rq = "\<lparr>ip = Some ?a, connection = None\<rparr>"
  let ?m = "[?a \<mapsto> \<lparr>count = 120, start = 1000\<rparr>]"
  let ?reqs = "[(?rq, 2000 :: int), (?rq, 61000)]"
  let ?r = "\<lparr>status = 429, is_success = False, official_email = None, data = None,
             error = Some (str ''Too many requests'')\<rparr>"
  have c: "client_ip ?rq = Inr ?a" by (simp add: client_ip_def truthy_string_def str_def)
  have h1: "?m ?a = Some \<lparr>count = 120, start = 1000\<rparr>" by simp
  have h2: "(120::int) \<le> 120" by simp
  have h3: "\<forall>(req, now) \<in> set ?reqs. client_ip req = Inr ?a \<longrightarrow> now - 1000 \<le> 60000"
    by simp
  note t = rate_limiter_rejection_persists [of ?m ?a 120 1000 ?reqs None, OF h1 h2 h3]
  have r: "too_many_requests None = ?r"
    by (simp add: too_many_requests_def or_null_def truthy_string_def)
  from t have "\<forall>req now. client_ip req = Inr ?a \<and> now - 1000 \<le> 60000 \<longrightarrow>
      rate_limiter None ?m req now
        = (?m(?a \<mapsto> \<lparr>count = 120 + 1, start = 1000\<rparr>), Some (too_many_requests None))"
    by blast
  from this [rule_format, of ?rq 2000] c
  have first: "rate_limiter None ?m ?rq 2000 = ([?a \<mapsto> \<lparr>count = 121, start = 1000\<rparr>], Some ?r)"
    by (simp add: r)
  from t have "\<forall>req now. client_ip req = Inr ?a \<and> 60000 < now - 1000 \<longrightarrow>
      rate_limiter None ?m req now = (?m(?a \<mapsto> \<lparr>count = 1, start = now\<rparr>), None)"
    by blast
  from this [rule_format, of ?rq 61001] c
  have reset: "rate_limiter None ?m ?rq 61001 = ([?a \<mapsto> \<lparr>count = 1, start = 61001\<rparr>], None)"
    by simp
  have run: "serve None ?m ?reqs = ([?a \<mapsto> \<lparr>count = 122, start = 1000\<rparr>], [Some ?r, Some ?r])"
    by (simp add: rate_limiter_def Let_def c RATE_LIMIT_def RATE_WINDOW_MS_def r)
  from first reset run show ?thesis by simp
qed


section \<open>The JSON span of the sanitizer\<close>

lemma in_class_any [simp]: "in_class any_char c"
  by (simp add: in_class_def any_char_def)

lemma matches_lit:
  "matches (lit a) p s = (case s of [] \<Rightarrow> [] | c # _ \<Rightarrow> if c = a then [([c], None)] else [])"
  by (cases s) (auto simp add: lit_def in_class_def)

lemma takeWhile_any [simp]: "takeWhile (in_class any_char) s = s"
  by (induction s) simp_all

lemma matches_any_star:
  "matches (Rep True 0 None any_char) p s = map (\<lambda>k. (take k s, None)) (rev [0..<Suc (length s)])"
  by (simp add: Let_def)

lemma closes_eq:
  assumes "k \<le> length t"
  shows "map (\<lambda>(c2, g2). (take k t @ c2, case g2 of None \<Rightarrow> None | Some g \<Rightarrow> Some g))
        (matches (lit 125) (last_char p (take k t)) (drop (length (take k t)) t)) = closes t k"
proof (cases "k < length t")
  case True
  then have "drop k t = t ! k # drop (Suc k) t" by (simp add: Cons_nth_drop_Suc)
  then show ?thesis using True by (simp add: matches_lit closes_def min_def)
next
  case False
  with assms have "drop k t = []" by simp
  then show ?thesis using False assms by (simp add: matches_lit closes_def min_def)
qed

lemma matches_brace_tail:
  "matches brace_tail p t = concat (map (closes t) (rev [0..<Suc (length t)]))"
proof -
  have "matches brace_tail p t =
      concat (map (\<lambda>k. map (\<lambda>(c2, g2). (take k t @ c2, case g2 of None \<Rightarrow> None | Some g \<Rightarrow> Some g))
        (matches (lit 125) (last_char p (take k t)) (drop (length (take k t)) t)))
      (rev [0..<Suc (length t)]))"
    unfolding brace_tail_def
    by (simp only: matches.simps(3) matches_any_star map_map comp_def prod.case)
  also have "\<dots> = concat (map (closes t) (rev [0..<Suc (length t)]))"
    by (intro arg_cong [where f = concat] map_cong refl closes_eq) auto
  finally show ?thesis .
qed

lemma closes_none: "(\<And>k. k \<in> set ks \<Longrightarrow> closes t k = []) \<Longrightarrow> concat (map (closes t) ks) = []"
  by (induction ks) simp_all

lemma matches_brace_tail_last:
  assumes "125 \<notin> set post"
  shows "\<exists>rest. matches brace_tail p (mid @ 125 # post) = (mid @ [125], None) # rest"
proof -
  let ?t = "mid @ 125 # post"
  let ?k = "length mid"
  have split: "[0..<Suc (length ?t)] = [0..<?k] @ [?k] @ [Suc ?k..<Suc (length ?t)]"
  proof -
    have "[0..<Suc ?k + (length ?t - ?k)] = [0..<Suc ?k] @ [Suc ?k..<Suc ?k + (length ?t - ?k)]"
      by (rule upt_add_eq_append) simp
    moreover have "Suc ?k + (length ?t - ?k) = Suc (length ?t)" by simp
    ultimately have "[0..<Suc (length ?t)] = [0..<Suc ?k] @ [Suc ?k..<Suc (length ?t)]"
      by (simp only:)
    then show ?thesis by simp
  qed
  have later: "closes ?t k = []" if "k \<in> set (rev [Suc ?k..<Suc (length ?t)])" for k
  proof (cases "k < length ?t")
    case False
    then show ?thesis by (simp add: closes_def)
  next
    case True
    from that have "k \<in> {Suc ?k..<Suc (length ?t)}" unfolding set_rev set_upt .
    then have gt: "?k < k" by simp
    then have "?t ! k = post ! (k - Suc ?k)" by (simp add: nth_append nth_Cons')
    moreover have "k - Suc ?k < length post" using True gt by simp
    ultimately have "?t ! k \<in> set post" by simp
    with assms have "?t ! k \<noteq> 125" by metis
    then show ?thesis by (simp add: closes_def)
  qed
  have here: "closes ?t ?k = [(mid @ [125], None)]" by (simp add: closes_def)
  have "matches brace_tail p ?t
      = concat (map (closes ?t) (rev [Suc ?k..<Suc (length ?t)])) @ closes ?t ?k
        @ concat (map (closes ?t) (rev [0..<?k]))"
    unfolding matches_brace_tail split by simp
  also have "\<dots> = (mid @ [125], None) # concat (map (closes ?t) (rev [0..<?k]))"
    using closes_none [of "rev [Suc ?k..<Suc (length ?t)]" ?t] later here by simp
  finally show ?thesis by blast
qed

lemma matches_brace_tail_none:
  assumes "125 \<notin> set t"
  shows "matches brace_tail p t = []"
proof -
  have "closes t k = []" for k
  proof (cases "k < length t \<and> t ! k = 125")
    case True
    then have "125 \<in> set t" by (metis nth_mem)
    with assms show ?thesis by simp
  next
    case False
    then show ?thesis by (auto simp add: closes_def)
  qed
  then show ?thesis unfolding matches_brace_tail by (intro closes_none) simp
qed

lemma json_re_unfold: "json_re = Then (lit 123) brace_tail"
  by (simp add: json_re_def brace_tail_def)

lemma matches_json_re_other: "c \<noteq> 123 \<Longrightarrow> matches json_re p (c # t) = []"
  by (simp add: json_re_unfold matches_lit)

lemma matches_json_re_nil: "matches json_re p [] = []"
  by (simp add: json_re_unfold matches_lit)

lemma matches_json_re_open:
  "matches json_re p (123 # t)
     = map (\<lambda>(c2, g2). (123 # c2, case g2 of None \<Rightarrow> None | Some g \<Rightarrow> Some g))
         (matches brace_tail (Some 123) t)"
  by (simp add: json_re_unfold matches_lit last_char_def)

lemma search_json_re_span:
  assumes "123 \<notin> set pre" and "125 \<notin> set post"
  shows "search json_re p (pre @ 123 # mid @ 125 # post) = Some (pre, 123 # mid @ [125], None)"
  using assms(1)
proof (induction pre arbitrary: p)
  case Nil
  from matches_brace_tail_last [OF assms(2), of "Some 123" mid] obtain rest where
    "matches brace_tail (Some 123) (mid @ 125 # post) = (mid @ [125], None) # rest" by blast
  then show ?case by (simp add: matches_json_re_open)
next
  case (Cons x pre)
  then have "x \<noteq> 123" and "123 \<notin> set pre" by auto
  with Cons.IH [of "Some x"] show ?case by (simp add: matches_json_re_other)
qed

lemma search_json_re_none:
  assumes "\<And>a b c. s \<noteq> a @ 123 # b @ 125 # c"
  shows "search json_re p s = None"
  using assms
proof (induction s arbitrary: p)
  case Nil
  show ?case by (simp add: matches_json_re_nil)
next
  case (Cons x s)
  have rest: "\<And>a b c. s \<noteq> a @ 123 # b @ 125 # c"
  proof
    fix a b c assume "s = a @ 123 # b @ 125 # c"
    then have "x # s = (x # a) @ 123 # b @ 125 # c" by simp
    with Cons.prems show False by blast
  qed
  have m: "matches json_re p (x # s) = []"
  proof (cases "x = 123")
    case False
    then show ?thesis by (rule matches_json_re_other)
  next
    case True
    have "125 \<notin> set s"
    proof
      assume "125 \<in> set s"
      then obtain b c where "s = b @ 125 # c" by (auto simp add: in_set_conv_decomp)
      then have "x # s = [] @ 123 # b @ 125 # c" using True by simp
      with Cons.prems show False by blast
    qed
    then show ?thesis using True by (simp add: matches_json_re_open matches_brace_tail_none)
  qed
  show ?case using m Cons.IH [OF rest] by simp
qed

text \<open>The step \<open>extract_json\<close> on a text with a span, and on one without.\<close>

lemma extract_json_span:
  assumes "123 \<notin> set pre" and "125 \<notin> set post"
  shows "extract_json ntoa (pre @ 123 # mid @ 125 # post) =
           (case JSON_parse (123 # mid @ [125]) of
              None \<Rightarrow> 123 # mid @ [125]
            | Some parsed \<Rightarrow> from_parsed ntoa parsed)"
  using search_json_re_span [OF assms, of None mid] by (simp add: extract_json_def)

lemma extract_json_none:
  assumes "\<nexists>a b c. s = a @ 123 # b @ 125 # c"
  shows "extract_json ntoa s = s"
proof -
  have "\<And>a b c. s \<noteq> a @ 123 # b @ 125 # c" using assms by blast
  then have "search json_re None s = None" by (rule search_json_re_none)
  then show ?thesis by (simp add: extract_json_def)
qed

lemma from_parsed_cases:
  "from_parsed ntoa (Str t) = t"
  "map_of ms (str ''data'') = Some (Str d) \<Longrightarrow> from_parsed ntoa (Obj ms) = d"
  "(\<forall>t. parsed \<noteq> Str t) \<Longrightarrow>
   (\<forall>ms d. parsed = Obj ms \<longrightarrow> map_of ms (str ''data'') \<noteq> Some (Str d)) \<Longrightarrow>
   from_parsed ntoa parsed = JSON_stringify ntoa parsed"
proof -
  show "from_parsed ntoa (Str t) = t" by (simp add: from_parsed_def)
  show "from_parsed ntoa (Obj ms) = d" if "map_of ms (str ''data'') = Some (Str d)"
    using that by (simp add: from_parsed_def truthy_def property_def)
  show "from_parsed ntoa parsed = JSON_stringify ntoa parsed"
    if "\<forall>t. parsed \<noteq> Str t"
      and "\<forall>ms d. parsed = Obj ms \<longrightarrow> map_of ms (str ''data'') \<noteq> Some (Str d)"
    using that
    by (cases parsed) (auto simp add: from_parsed_def truthy_def property_def
        split: option.splits json.splits)
qed

lemma cleanAIContent_example: \<open>cleanAIContent ntoa (str ''{"data":"42"}'') = str ''42''\<close>
  by code_simp

text \<open>
  Runs of the whole sanitizer. A fenced block goes away before the span is looked for, also
  when it holds braces of its own. A parsed object without a string field \<open>data\<close> comes back
  pretty-printed with two spaces of indentation. A span that is not JSON becomes the text,
  without what stood around it.
\<close>

lemma cleanAIContent_fence:
  \<open>cleanAIContent ntoa (str ''```{"data":"no"}```{"data":"yes"}'') = str ''yes''\<close>
  by code_simp

lemma cleanAIContent_pretty:
  \<open>cleanAIContent ntoa (str ''{"a":1,"b":[true,null]}'')
   = str ''{'' @ [10] @ str ''  "a": 1,'' @ [10] @ str ''  "b": ['' @ [10]
     @ str ''    true,'' @ [10] @ str ''    null'' @ [10] @ str ''  ]'' @ [10] @ str ''}''\<close>
  by code_simp

lemma cleanAIContent_fence_pretty:
  \<open>cleanAIContent ntoa
     (str ''Before ```js'' @ [10] @ str ''let x = {};'' @ [10] @ str ''``` after {"list":[]} end'')
   = str ''{'' @ [10] @ str ''  "list": []'' @ [10] @ str ''}''\<close>
  by code_simp

lemma cleanAIContent_verbatim:
  \<open>cleanAIContent ntoa (str ''Sure: {not json} ok'') = str ''{not json}''\<close>
  by code_simp

text \<open>
  Claim C2. After the fenced code blocks are removed, the sanitizer takes the first match of
  \<^verbatim>\<open>/\{[\s\S]*\}/\<close> in the text: the span from the first opening brace to the last closing
  brace after it (a text with no such span is left as it is). The span is parsed as JSON.
  A parsed string replaces the whole text; from a parsed object with a string field \<open>data\<close>
  that field is taken; any other parsed value is replaced by its pretty-printed
  serialization; and when the parse fails the matched span itself becomes the text. For the
  input \<^verbatim>\<open>{"data":"42"}\<close> the sanitizer returns \<open>42\<close>. The last four conjuncts run the whole
  sanitizer: on a text whose fenced block holds an object of its own (the object after the
  fence is the one that is read), on an object without a field \<open>data\<close> (it is printed on
  several lines, indented by two spaces), on a fenced block followed by such an object, and
  on a span that is not JSON (the span alone is kept).
\<close>

theorem cleanAIContent_json_span:
  \<open>(raw \<noteq> [] \<longrightarrow>
      cleanAIContent ntoa raw = finish (extract_json ntoa (replace_all fence_re remove None raw)))
   \<and> ((\<nexists>a b c. s = a @ 123 # b @ 125 # c) \<longrightarrow> extract_json ntoa s = s)
   \<and> (123 \<notin> set pre \<and> 125 \<notin> set post \<longrightarrow>
        extract_json ntoa (pre @ 123 # mid @ 125 # post) =
          (case JSON_parse (123 # mid @ [125]) of
             None \<Rightarrow> 123 # mid @ [125]
           | Some parsed \<Rightarrow> from_parsed ntoa parsed))
   \<and> from_parsed ntoa (Str t) = t
   \<and> (map_of ms (str ''data'') = Some (Str d) \<longrightarrow> from_parsed ntoa (Obj ms) = d)
   \<and> ((\<forall>t. parsed \<noteq> Str t)
        \<and> (\<forall>ms d. parsed = Obj ms \<longrightarrow> map_of ms (str ''data'') \<noteq> Some (Str d)) \<longrightarrow>
        from_parsed ntoa parsed = JSON_stringify ntoa parsed)
   \<and> cleanAIContent ntoa (str ''{"data":"42"}'') = str ''42''
   \<and> cleanAIContent ntoa (str ''```{"data":"no"}```{"data":"yes"}'') = str ''yes''
   \<and> cleanAIContent ntoa (str ''{"a":1,"b":[true,null]}'')
       = str ''{'' @ [10] @ str ''  "a": 1,'' @ [10] @ str ''  "b": ['' @ [10]
         @ str ''    true,'' @ [10] @ str ''    null'' @ [10] @ str ''  ]'' @ [10] @ str ''}''
   \<and> cleanAIContent ntoa
         (str ''Before ```js'' @ [10] @ str ''let x = {};'' @ [10] @ str ''``` after {"list":[]} end'')
       = str ''{'' @ [10] @ str ''  "list": []'' @ [10] @ str ''}''
   \<and> cleanAIContent ntoa (str ''Sure: {not json} ok'') = str ''{not json}''\<close>
proof -
  have general: \<open>(raw \<noteq> [] \<longrightarrow>
      cleanAIContent ntoa raw = finish (extract_json ntoa (replace_all fence_re remove None raw)))
   \<and> ((\<nexists>a b c. s = a @ 123 # b @ 125 # c) \<longrightarrow> extract_json ntoa s = s)
   \<and> (123 \<notin> set pre \<and> 125 \<notin> set post \<longrightarrow>
        extract_json ntoa (pre @ 123 # mid @ 125 # post) =
          (case JSON_parse (123 # mid @ [125]) of
             None \<Rightarrow> 123 # mid @ [125]
           | Some parsed \<Rightarrow> from_parsed ntoa parsed))
   \<and> from_parsed ntoa (Str t) = t
   \<and> (map_of ms (str ''data'') = Some (Str d) \<longrightarrow> from_parsed ntoa (Obj ms) = d)
   \<and> ((\<forall>t. parsed \<noteq> Str t)
        \<and> (\<forall>ms d. parsed = Obj ms \<longrightarrow> map_of ms (str ''data'') \<noteq> Some (Str d)) \<longrightarrow>
        from_parsed ntoa parsed = JSON_stringify ntoa parsed)\<close>
    using extract_json_span [of pre post ntoa mid] extract_json_none [of s ntoa]
      from_parsed_cases(1) [of ntoa t] from_parsed_cases(2) [of ms d ntoa]
      from_parsed_cases(3) [of parsed ntoa]
    by (simp add: cleanAIContent_def)
  show ?thesis
    using general cleanAIContent_example [of ntoa] cleanAIContent_fence [of ntoa]
      cleanAIContent_pretty [of ntoa] cleanAIContent_fence_pretty [of ntoa]
      cleanAIContent_verbatim [of ntoa]
    by blast
qed

theorem cleanAIContent_json_span_witness:
  \<open>extract_json (\<lambda>q. []) (str ''Answer: {"data":"42"} (done)'') = str ''42''
   \<and> extract_json (\<lambda>q. []) (str ''no braces'') = str ''no braces''
   \<and> cleanAIContent (\<lambda>q. []) (str ''{"data":"42"}'') = str ''42''
   \<and> cleanAIContent (\<lambda>q. []) (str ''```{"data":"no"}```{"data":"yes"}'') = str ''yes''
   \<and> cleanAIContent (\<lambda>q. []) (str ''{"a":1,"b":[true,null]}'')
       = str ''{'' @ [10] @ str ''  "a": 1,'' @ [10] @ str ''  "b": ['' @ [10]
         @ str ''    true,'' @ [10] @ str ''    null'' @ [10] @ str ''  ]'' @ [10] @ str ''}''
   \<and> cleanAIContent (\<lambda>q. [])
         (str ''Before ```js'' @ [10] @ str ''let x = {};'' @ [10] @ str ''``` after {"list":[]} end'')
       = str ''{'' @ [10] @ str ''  "list": []'' @ [10] @ str ''}''
   \<and> cleanAIContent (\<lambda>q. []) (str ''Sure: {not json} ok'') = str ''{not json}''\<close>
proof -
  let ?ms = \<open>[(str ''data'', Str (str ''42''))]\<close>
  note inst = cleanAIContent_json_span [of \<open>str ''{"data":"42"}''\<close> \<open>\<lambda>q. []\<close> \<open>str ''no braces''\<close>
      \<open>str ''Answer: ''\<close> \<open>str '' (done)''\<close> \<open>str ''"data":"42"''\<close> \<open>str ''42''\<close> ?ms \<open>str ''42''\<close> Null]
  have pre: \<open>123 \<notin> set (str ''Answer: '')\<close> and post: \<open>125 \<notin> set (str '' (done)'')\<close>
    by (simp_all add: str_def)
  have parse: \<open>JSON_parse (123 # str ''"data":"42"'' @ [125]) = Some (Obj ?ms)\<close>
    by code_simp
  have field: \<open>map_of ?ms (str ''data'') = Some (Str (str ''42''))\<close> by simp
  have whole: \<open>str ''Answer: {"data":"42"} (done)''
      = str ''Answer: '' @ 123 # str ''"data":"42"'' @ 125 # str '' (done)''\<close>
    by (simp add: str_def)
  from inst have span: \<open>123 \<notin> set (str ''Answer: '') \<and> 125 \<notin> set (str '' (done)'') \<longrightarrow>
      extract_json (\<lambda>q. []) (str ''Answer: '' @ 123 # str ''"data":"42"'' @ 125 # str '' (done)'') =
        (case JSON_parse (123 # str ''"data":"42"'' @ [125]) of
           None \<Rightarrow> 123 # str ''"data":"42"'' @ [125]
         | Some parsed \<Rightarrow> from_parsed (\<lambda>q. []) parsed)\<close>
    and taken: \<open>map_of ?ms (str ''data'') = Some (Str (str ''42'')) \<longrightarrow>
      from_parsed (\<lambda>q. []) (Obj ?ms) = str ''42''\<close>
    by blast+
  have a: \<open>extract_json (\<lambda>q. []) (str ''Answer: {"data":"42"} (done)'') = str ''42''\<close>
    using span taken pre post parse field unfolding whole by simp
  have \<open>123 \<notin> set (str ''no braces'')\<close> by (simp add: str_def)
  then have none: \<open>\<nexists>a b c. str ''no braces'' = a @ 123 # b @ 125 # c\<close>
    by (metis in_set_conv_decomp)
  have b: \<open>extract_json (\<lambda>q. []) (str ''no braces'') = str ''no braces''\<close>
    using inst none by blast
  from inst have c: \<open>cleanAIContent (\<lambda>q. []) (str ''{"data":"42"}'') = str ''42''
   \<and> cleanAIContent (\<lambda>q. []) (str ''```{"data":"no"}```{"data":"yes"}'') = str ''yes''
   \<and> cleanAIContent (\<lambda>q. []) (str ''{"a":1,"b":[true,null]}'')
       = str ''{'' @ [10] @ str ''  "a": 1,'' @ [10] @ str ''  "b": ['' @ [10]
         @ str ''    true,'' @ [10] @ str ''    null'' @ [10] @ str ''  ]'' @ [10] @ str ''}''
   \<and> cleanAIContent (\<lambda>q. [])
         (str ''Before ```js'' @ [10] @ str ''let x = {};'' @ [10] @ str ''``` after {"list":[]} end'')
       = str ''{'' @ [10] @ str ''  "list": []'' @ [10] @ str ''}''
   \<and> cleanAIContent (\<lambda>q. []) (str ''Sure: {not json} ok'') = str ''{not json}''\<close>
    by blast
  show ?thesis using a b c by blast
qed


section \<open>The dispatcher \<^verbatim>\<open>POST /bfhl\<close>\<close>

lemma str_nonempty [simp]: "str (c # cs) \<noteq> []"
  by (simp add: str_def)

lemma the_int_number [simp]: "the_int (number n) = n"
  by (simp add: the_int_def number_def)

lemma isInteger_number [simp]: "isInteger (number n)"
  by (simp add: isInteger_def number_def)

lemma isInteger_iff: "isInteger v \<longleftrightarrow> v = number (the_int v)"
  by (cases v) (auto simp add: isInteger_def number_def the_int_def)

lemma all_integers_iff: "list_all isInteger arr \<longleftrightarrow> arr = map number (map the_int arr)"
proof (induction arr)
  case Nil
  show ?case by simp
next
  case (Cons a arr)
  show ?case using Cons.IH isInteger_iff [of a] by auto
qed

lemma all_integers_map [simp]: "list_all isInteger (map number nums)"
  by (induction nums) simp_all

lemma the_int_o_number [simp]: "the_int \<circ> number = id"
  by (simp add: fun_eq_iff)

lemma the_int_map: "map the_int (map number nums) = nums"
  by simp

lemma integers_of_numbers [simp]: "integers_of msg (map number nums) = Inr nums"
  by (simp add: integers_of_def)

lemma integers_of_other: "\<not> list_all isInteger arr \<Longrightarrow> integers_of msg arr = Inl (Error msg)"
  by (simp add: integers_of_def)

lemma property_single [simp]: "property (Obj [(k, v)]) k = Some v"
  by (simp add: property_def)

lemma own_properties_length [simp]: "length (own_properties ms) = length ms"
proof -
  have "length (filter (\<lambda>(k, v). array_index k) ms) + length (filter (\<lambda>(k, v). \<not> array_index k) ms)
      = length ms"
    using sum_length_filter_compl [of "\<lambda>(k, v). array_index k" ms] by (simp add: case_prod_unfold)
  then show ?thesis by (simp add: own_properties_def)
qed

lemma own_properties_single [simp]: "own_properties [(k, v)] = [(k, v)]"
  by (simp add: own_properties_def)

lemma gcdArray_nonempty: "nums \<noteq> [] \<Longrightarrow> \<exists>g. gcdArray nums = Inr g"
  by (cases nums) (simp_all add: gcdArray_def)

lemma lcmArray_nonempty: "nums \<noteq> [] \<Longrightarrow> \<exists>l. lcmArray nums = Inr l"
  by (cases nums) (simp_all add: lcmArray_def)

lemma array_shape_cases:
  obtains (good) nums where "v = Arr (map number nums)" "nums \<noteq> []"
  | (mixed) arr where "v = Arr arr" "arr \<noteq> []" "\<not> list_all isInteger arr" "\<not> array_shape v"
  | (bad) "\<not> array_shape v" "v = Arr [] \<or> (\<forall>arr. v \<noteq> Arr arr)"
proof (cases "\<exists>arr. v = Arr arr")
  case False
  then have "\<not> array_shape v" by (auto simp add: array_shape_def)
  with False show ?thesis using bad by blast
next
  case True
  then obtain arr where arr: "v = Arr arr" by blast
  show ?thesis
  proof (cases "arr = []")
    case True
    with arr have "\<not> array_shape v" by (auto simp add: array_shape_def)
    with arr True show ?thesis using bad by blast
  next
    case ne: False
    show ?thesis
    proof (cases "list_all isInteger arr")
      case True
      then have "arr = map number (map the_int arr)" by (simp add: all_integers_iff)
      with arr ne show ?thesis using good [of "map the_int arr"] by auto
    next
      case False
      have "\<not> array_shape v"
      proof
        assume "array_shape v"
        then obtain nums where "arr = map number nums" using arr by (auto simp add: array_shape_def)
        with False show False by simp
      qed
      with arr ne False show ?thesis using mixed by blast
    qed
  qed
qed

lemma prime_branch_result:
  "prime_branch cfg (Obj [(str ''prime'', v)]) =
     (if array_shape v then Inr (success cfg (Arr (map number (filter isPrimeNum (map the_int (case v of Arr arr \<Rightarrow> arr))))))
      else if (\<exists>arr. v = Arr arr \<and> arr \<noteq> []) then Inl (Error (str ''prime array must contain integers''))
      else Inr (sendError cfg 400 (str ''prime must be a non-empty array'')))"
proof (cases v rule: array_shape_cases)
  case (good nums)
  then have "array_shape v" by (auto simp add: array_shape_def)
  with good show ?thesis by (simp add: prime_branch_def)
next
  case (mixed arr)
  then show ?thesis by (simp add: prime_branch_def integers_of_other)
next
  case bad
  then show ?thesis by (cases v) (auto simp add: prime_branch_def)
qed

lemma hcf_branch_result:
  "hcf_branch cfg (Obj [(str ''hcf'', v)]) =
     (if array_shape v then Inr (success cfg (number (projr (gcdArray (map the_int (case v of Arr arr \<Rightarrow> arr))))))
      else if (\<exists>arr. v = Arr arr \<and> arr \<noteq> []) then Inl (Error (str ''hcf array must contain integers''))
      else Inr (sendError cfg 400 (str ''hcf must be a non-empty array'')))"
proof (cases v rule: array_shape_cases)
  case (good nums)
  then have "array_shape v" by (auto simp add: array_shape_def)
  with good gcdArray_nonempty [OF good(2)] show ?thesis by (auto simp add: hcf_branch_def)
next
  case (mixed arr)
  then show ?thesis by (simp add: hcf_branch_def integers_of_other)
next
  case bad
  then show ?thesis by (cases v) (auto simp add: hcf_branch_def)
qed

lemma lcm_branch_result:
  "lcm_branch cfg (Obj [(str ''lcm'', v)]) =
     (if array_shape v then Inr (success cfg (number (projr (lcmArray (map the_int (case v of Arr arr \<Rightarrow> arr))))))
      else if (\<exists>arr. v = Arr arr \<and> arr \<noteq> []) then Inl (Error (str ''lcm array must contain integers''))
      else Inr (sendError cfg 400 (str ''lcm must be a non-empty array'')))"
proof (cases v rule: array_shape_cases)
  case (good nums)
  then have "array_shape v" by (auto simp add: array_shape_def)
  with good lcmArray_nonempty [OF good(2)] show ?thesis by (auto simp add: lcm_branch_def)
next
  case (mixed arr)
  then show ?thesis by (simp add: lcm_branch_def integers_of_other)
next
  case bad
  then show ?thesis by (cases v) (auto simp add: lcm_branch_def)
qed

lemma fibonacci_branch_result:
  "fibonacci_branch cfg (Obj [(str ''fibonacci'', v)]) =
     (if (\<exists>n. v = number n \<and> 1 \<le> n \<and> n \<le> 1000)
      then Inr (success cfg (Arr (map number (fibSeries (the_int v)))))
      else Inr (sendError cfg 400 (str ''fibonacci must be an integer in range 1..1000'')))"
proof (cases "isInteger v")
  case False
  then have "\<nexists>n. v = number n" by auto
  with False show ?thesis by (simp add: fibonacci_branch_def)
next
  case True
  then have v: "v = number (the_int v)" by (simp add: isInteger_iff)
  show ?thesis
  proof (cases "1 \<le> the_int v \<and> the_int v \<le> 1000")
    case True
    with v have "\<exists>n. v = number n \<and> 1 \<le> n \<and> n \<le> 1000" by blast
    with True \<open>isInteger v\<close> show ?thesis by (simp add: fibonacci_branch_def)
  next
    case False
    then have "\<nexists>n. v = number n \<and> 1 \<le> n \<and> n \<le> 1000" by auto
    with False \<open>isInteger v\<close> show ?thesis by (auto simp add: fibonacci_branch_def)
  qed
qed

lemma AI_branch_result:
  "\<exists>r. AI_branch ntoa cfg (Obj [(str ''AI'', v)]) = Inr r \<and>
     (if (\<exists>question. v = Str question \<and> trim question \<noteq> [])
      then status r \<in> {200, 502, 503}
      else r = sendError cfg 400 (str ''AI must be a non-empty string''))"
  by (cases v)
    (auto simp add: AI_branch_def sendError_def success_def split: option.splits)

lemma rejected_sendError [simp]: "rejected (sendError cfg 400 (str (c # cs)))"
  by (simp add: rejected_def sendError_def)

lemma keys_distinct [simp]:
  "str ''fibonacci'' \<noteq> str ''prime''" "str ''fibonacci'' \<noteq> str ''hcf''"
  "str ''fibonacci'' \<noteq> str ''lcm''" "str ''fibonacci'' \<noteq> str ''AI''"
  "str ''prime'' \<noteq> str ''hcf''" "str ''prime'' \<noteq> str ''lcm''" "str ''prime'' \<noteq> str ''AI''"
  "str ''hcf'' \<noteq> str ''lcm''" "str ''hcf'' \<noteq> str ''AI''" "str ''lcm'' \<noteq> str ''AI''"
  "str ''prime'' \<noteq> str ''fibonacci''" "str ''hcf'' \<noteq> str ''fibonacci''"
  "str ''lcm'' \<noteq> str ''fibonacci''" "str ''AI'' \<noteq> str ''fibonacci''"
  "str ''hcf'' \<noteq> str ''prime''" "str ''lcm'' \<noteq> str ''prime''" "str ''AI'' \<noteq> str ''prime''"
  "str ''lcm'' \<noteq> str ''hcf''" "str ''AI'' \<noteq> str ''hcf''" "str ''AI'' \<noteq> str ''lcm''"
  by (simp_all add: str_def)

lemma post_bfhl_single:
  assumes "truthy_string (OFFICIAL_EMAIL cfg)" and "key \<in> set allowedKeys"
  shows "post_bfhl ntoa cfg (Obj [(key, v)]) =
     (case dispatch ntoa cfg key (Obj [(key, v)]) of
        Inr res \<Rightarrow> res
      | Inl err \<Rightarrow> sendError cfg 400 (if message_of err \<noteq> [] then message_of err else str ''Server error''))"
  using assms by (simp add: post_bfhl_def is_object_def object_keys_def)

lemma post_bfhl_unsupported:
  assumes "truthy_string (OFFICIAL_EMAIL cfg)" and "key \<notin> set allowedKeys"
  shows "post_bfhl ntoa cfg (Obj [(key, v)]) = sendError cfg 400 (str ''Unsupported key provided'')"
  using assms by (simp add: post_bfhl_def is_object_def object_keys_def)

lemma post_bfhl_several:
  assumes "truthy_string (OFFICIAL_EMAIL cfg)" and "length ms \<noteq> 1"
  shows "post_bfhl ntoa cfg (Obj ms) =
     sendError cfg 400 (str ''Request must contain exactly one top-level key'')"
  using assms by (simp add: post_bfhl_def is_object_def object_keys_def)

lemma post_bfhl_other:
  assumes "truthy_string (OFFICIAL_EMAIL cfg)" and "\<nexists>key v. body = Obj [(key, v)]"
  shows "rejected (post_bfhl ntoa cfg body)"
proof (cases body)
  case (Obj ms)
  with assms(2) have "length ms \<noteq> 1" by (cases ms) auto
  with Obj show ?thesis using post_bfhl_several [OF assms(1)] by simp
next
  case (Arr vs)
  show ?thesis
  proof (cases "length vs = 1")
    case False
    with Arr assms(1) show ?thesis
      by (simp add: post_bfhl_def is_object_def object_keys_def)
  next
    case True
    then obtain x where "vs = [x]" by (cases vs) auto
    then have k: "object_keys body = [[48]]" using Arr by (simp add: object_keys_def)
    have "[48] \<notin> set allowedKeys" by (simp add: allowedKeys_def str_def)
    with Arr assms(1) k show ?thesis by (simp add: post_bfhl_def is_object_def)
  qed
qed (use assms(1) in \<open>simp_all add: post_bfhl_def is_object_def\<close>)

lemma dispatch_result:
  assumes "key \<in> set allowedKeys"
  shows "(shape_ok key v \<longrightarrow>
            (\<exists>r. dispatch ntoa cfg key (Obj [(key, v)]) = Inr r \<and> status r \<in> {200, 502, 503}))
       \<and> (\<not> shape_ok key v \<longrightarrow>
            (\<exists>c cs. dispatch ntoa cfg key (Obj [(key, v)]) = Inr (sendError cfg 400 (str (c # cs)))
                  \<or> dispatch ntoa cfg key (Obj [(key, v)]) = Inl (Error (str (c # cs)))))"
proof -
  from assms consider "key = str ''fibonacci''" | "key = str ''prime''" | "key = str ''lcm''"
    | "key = str ''hcf''" | "key = str ''AI''"
    by (auto simp add: allowedKeys_def)
  then show ?thesis
  proof cases
    case 1
    then show ?thesis
      by (auto simp add: dispatch_def shape_ok_def fibonacci_branch_result success_def)
  next
    case 2
    then have s: "shape_ok key v = array_shape v" by (simp add: shape_ok_def array_shape_def)
    show ?thesis unfolding s using 2
      by (auto simp add: dispatch_def prime_branch_result success_def)
  next
    case 3
    then have s: "shape_ok key v = array_shape v" by (simp add: shape_ok_def array_shape_def)
    show ?thesis unfolding s using 3
      by (auto simp add: dispatch_def lcm_branch_result success_def)
  next
    case 4
    then have s: "shape_ok key v = array_shape v" by (simp add: shape_ok_def array_shape_def)
    show ?thesis unfolding s using 4
      by (auto simp add: dispatch_def hcf_branch_result success_def)
  next
    case 5
    from AI_branch_result [of ntoa cfg v] obtain r where
      r: "AI_branch ntoa cfg (Obj [(str ''AI'', v)]) = Inr r"
      "if (\<exists>question. v = Str question \<and> trim question \<noteq> [])
       then status r \<in> {200, 502, 503}
       else r = sendError cfg 400 (str ''AI must be a non-empty string'')" by blast
    show ?thesis using 5 r
      by (auto simp add: dispatch_def shape_ok_def split: if_splits)
  qed
qed


text \<open>The three array branches on a non-empty array of integers.\<close>

lemma post_bfhl_array:
  assumes "truthy_string (OFFICIAL_EMAIL cfg)" and "nums \<noteq> []"
  shows "post_bfhl ntoa cfg (Obj [(str ''prime'', Arr (map number nums))])
           = success cfg (Arr (map number (filter isPrimeNum nums)))"
    and "post_bfhl ntoa cfg (Obj [(str ''hcf'', Arr (map number nums))])
           = success cfg (number (projr (gcdArray nums)))"
    and "post_bfhl ntoa cfg (Obj [(str ''lcm'', Arr (map number nums))])
           = success cfg (number (projr (lcmArray nums)))"
proof -
  have shape: "array_shape (Arr (map number nums))"
    using assms(2) by (auto simp add: array_shape_def)
  show "post_bfhl ntoa cfg (Obj [(str ''prime'', Arr (map number nums))])
           = success cfg (Arr (map number (filter isPrimeNum nums)))"
    using post_bfhl_single [OF assms(1), of "str ''prime''" ntoa "Arr (map number nums)"] shape
    by (simp add: allowedKeys_def dispatch_def prime_branch_result)
  show "post_bfhl ntoa cfg (Obj [(str ''hcf'', Arr (map number nums))])
           = success cfg (number (projr (gcdArray nums)))"
    using post_bfhl_single [OF assms(1), of "str ''hcf''" ntoa "Arr (map number nums)"] shape
    by (simp add: allowedKeys_def dispatch_def hcf_branch_result)
  show "post_bfhl ntoa cfg (Obj [(str ''lcm'', Arr (map number nums))])
           = success cfg (number (projr (lcmArray nums)))"
    using post_bfhl_single [OF assms(1), of "str ''lcm''" ntoa "Arr (map number nums)"] shape
    by (simp add: allowedKeys_def dispatch_def lcm_branch_result)
qed

text \<open>
  Claim C7. On a configured server the dispatcher answers 200 only to a body that is an
  object with exactly one top-level key, drawn from \<open>fibonacci\<close>, \<open>prime\<close>, \<open>lcm\<close>, \<open>hcf\<close>
  and \<open>AI\<close>, whose value passes the shape check of its kernel; every other body is answered
  with status 400, \<open>is_success\<close> false and a message that is not empty. A body with two
  top-level keys gets 400 with the message \<open>Request must contain exactly one top-level key\<close>,
  and the body \<^verbatim>\<open>{"hcf":[]}\<close> gets 400 with the message \<open>hcf must be a non-empty array\<close>.
\<close>

theorem post_bfhl_validation:
  assumes "truthy_string (OFFICIAL_EMAIL cfg)"
  shows "(status (post_bfhl ntoa cfg body) = 200 \<longrightarrow> valid_body body)
       \<and> (\<not> valid_body body \<longrightarrow>
            status (post_bfhl ntoa cfg body) = 400
          \<and> \<not> is_success (post_bfhl ntoa cfg body)
          \<and> (\<exists>msg. error (post_bfhl ntoa cfg body) = Some msg \<and> msg \<noteq> []))
       \<and> (\<forall>k1 v1 k2 v2. post_bfhl ntoa cfg (Obj [(k1, v1), (k2, v2)]) =
            sendError cfg 400 (str ''Request must contain exactly one top-level key''))
       \<and> post_bfhl ntoa cfg (Obj [(str ''hcf'', Arr [])]) =
            sendError cfg 400 (str ''hcf must be a non-empty array'')"
proof -
  have invalid: "rejected (post_bfhl ntoa cfg body)" if "\<not> valid_body body"
  proof (cases "\<exists>key v. body = Obj [(key, v)]")
    case False
    then show ?thesis using post_bfhl_other [OF assms] by blast
  next
    case True
    then obtain key v where body: "body = Obj [(key, v)]" by blast
    show ?thesis
    proof (cases "key \<in> set allowedKeys")
      case False
      then show ?thesis using post_bfhl_unsupported [OF assms] body by simp
    next
      case True
      with that body have "\<not> shape_ok key v" by (auto simp add: valid_body_def)
      with dispatch_result [OF True, of v ntoa cfg] obtain c cs where
        "dispatch ntoa cfg key (Obj [(key, v)]) = Inr (sendError cfg 400 (str (c # cs)))
         \<or> dispatch ntoa cfg key (Obj [(key, v)]) = Inl (Error (str (c # cs)))" by blast
      then show ?thesis
        using post_bfhl_single [OF assms True, of ntoa v] body
        by (auto simp add: message_of_def)
    qed
  qed
  have accepted: "valid_body body" if "status (post_bfhl ntoa cfg body) = 200"
  proof (rule ccontr)
    assume "\<not> valid_body body"
    from invalid [OF this] have "status (post_bfhl ntoa cfg body) = 400" by (simp add: rejected_def)
    with that show False by simp
  qed
  have two: "post_bfhl ntoa cfg (Obj [(k1, v1), (k2, v2)]) =
      sendError cfg 400 (str ''Request must contain exactly one top-level key'')" for k1 v1 k2 v2
    using post_bfhl_several [OF assms, of "[(k1, v1), (k2, v2)]"] by simp
  have hcf: "post_bfhl ntoa cfg (Obj [(str ''hcf'', Arr [])]) =
      sendError cfg 400 (str ''hcf must be a non-empty array'')"
    using post_bfhl_single [OF assms, of "str ''hcf''" ntoa "Arr []"]
    by (simp add: allowedKeys_def dispatch_def hcf_branch_def)
  show ?thesis
    using invalid accepted two hcf unfolding rejected_def by blast
qed

theorem post_bfhl_validation_witness:
  \<open>post_bfhl (\<lambda>q. []) \<lparr>OFFICIAL_EMAIL = Some (str ''dev@example.com''), genAI = None\<rparr>
     (Obj [(str ''prime'', Arr [number 2]), (str ''hcf'', Arr [number 4])])
   = \<lparr>status = 400, is_success = False, official_email = Some (str ''dev@example.com''),
      data = None, error = Some (str ''Request must contain exactly one top-level key'')\<rparr>
   \<and> post_bfhl (\<lambda>q. []) \<lparr>OFFICIAL_EMAIL = Some (str ''dev@example.com''), genAI = None\<rparr>
     (Obj [(str ''hcf'', Arr [])])
   = \<lparr>status = 400, is_success = False, official_email = Some (str ''dev@example.com''),
      data = None, error = Some (str ''hcf must be a non-empty array'')\<rparr>\<close>
proof -
  let ?cfg = "\<lparr>OFFICIAL_EMAIL = Some (str ''dev@example.com''), genAI = None\<rparr>"
  have h1: "truthy_string (OFFICIAL_EMAIL ?cfg)" by (simp add: truthy_string_def str_def)
  from post_bfhl_validation [OF h1, of "\<lambda>q. []" Null] show ?thesis
    by (simp add: sendError_def or_null_def truthy_string_def str_def)
qed

text \<open>
  Claim C6. On a configured server, for every body \<^verbatim>\<open>{"prime": arr}\<close> where \<open>arr\<close> is a
  non-empty array of integers (each a JavaScript number), the response is successful: status
  200, \<open>is_success\<close> true, no error, and its data is the list of the elements of \<open>arr\<close> that
  are prime, in the order and with the multiplicity of the input; the body
  \<^verbatim>\<open>{"prime":[2,3,4,5,1]}\<close> yields the data \<open>[2, 3, 5]\<close>.
\<close>

theorem post_bfhl_prime:
  assumes "truthy_string (OFFICIAL_EMAIL cfg)" and "nums \<noteq> []"
    and "\<forall>x \<in> set nums. js_round x = x"
  shows "post_bfhl ntoa cfg (Obj [(str ''prime'', Arr (map number nums))])
           = success cfg (Arr (map number (filter is_prime nums)))
       \<and> status (post_bfhl ntoa cfg (Obj [(str ''prime'', Arr (map number nums))])) = 200
       \<and> is_success (post_bfhl ntoa cfg (Obj [(str ''prime'', Arr (map number nums))]))
       \<and> data (post_bfhl ntoa cfg (Obj [(str ''prime'', Arr (map number nums))]))
           = Some (Arr (map number (filter is_prime nums)))
       \<and> error (post_bfhl ntoa cfg (Obj [(str ''prime'', Arr (map number nums))])) = None
       \<and> official_email (post_bfhl ntoa cfg (Obj [(str ''prime'', Arr (map number nums))]))
           = OFFICIAL_EMAIL cfg
       \<and> post_bfhl ntoa cfg
            (Obj [(str ''prime'', Arr [number 2, number 3, number 4, number 5, number 1])])
           = success cfg (Arr [number 2, number 3, number 5])
       \<and> data (post_bfhl ntoa cfg
            (Obj [(str ''prime'', Arr [number 2, number 3, number 4, number 5, number 1])]))
           = Some (Arr [Num 2, Num 3, Num 5])"
proof -
  have "filter isPrimeNum nums = filter is_prime nums"
    using assms(3) by (rule filter_isPrimeNum)
  then have a: "post_bfhl ntoa cfg (Obj [(str ''prime'', Arr (map number nums))])
           = success cfg (Arr (map number (filter is_prime nums)))"
    using post_bfhl_array(1) [OF assms(1,2), of ntoa] by simp
  have "filter isPrimeNum [2, 3, 4, 5, 1] = [2, 3, 5]" by code_simp
  then have b: "post_bfhl ntoa cfg
            (Obj [(str ''prime'', Arr [number 2, number 3, number 4, number 5, number 1])])
           = success cfg (Arr [number 2, number 3, number 5])"
    using post_bfhl_array(1) [OF assms(1), of "[2, 3, 4, 5, 1]" ntoa] by simp
  have n: "number 2 = Num 2" "number 3 = Num 3" "number 5 = Num 5"
    by (simp_all add: number_def)
  show ?thesis unfolding a b by (simp add: success_def n)
qed

theorem post_bfhl_prime_witness:
  \<open>post_bfhl (\<lambda>q. []) \<lparr>OFFICIAL_EMAIL = Some (str ''dev@example.com''), genAI = None\<rparr>
     (Obj [(str ''prime'', Arr [Num 7, Num 8, Num 7, Num (- 3), Num 11])])
   = \<lparr>status = 200, is_success = True, official_email = Some (str ''dev@example.com''),
      data = Some (Arr [Num 7, Num 7, Num 11]), error = None\<rparr>
   \<and> post_bfhl (\<lambda>q. []) \<lparr>OFFICIAL_EMAIL = Some (str ''dev@example.com''), genAI = None\<rparr>
     (Obj [(str ''prime'', Arr [Num 2, Num 3, Num 4, Num 5, Num 1])])
   = \<lparr>status = 200, is_success = True, official_email = Some (str ''dev@example.com''),
      data = Some (Arr [Num 2, Num 3, Num 5]), error = None\<rparr>\<close>
proof -
  let ?cfg = "\<lparr>OFFICIAL_EMAIL = Some (str ''dev@example.com''), genAI = None\<rparr>"
  have h1: "truthy_string (OFFICIAL_EMAIL ?cfg)" by (simp add: truthy_string_def str_def)
  have h2: "[7, 8, 7, - 3, 11] \<noteq> ([] :: int list)" by simp
  have h3: "\<forall>x \<in> set [7, 8, 7, - 3, 11 :: int]. js_round x = x" by (simp add: js_round_def)
  have p: "filter isPrimeNum [7, 8, 7, - 3, 11] = [7, 7, 11]" by code_simp
  have "filter is_prime [7, 8, 7, - 3, 11] = filter isPrimeNum [7, 8, 7, - 3, 11]"
    using filter_isPrimeNum [OF h3] by simp
  with p have q: "filter is_prime [7, 8, 7, - 3, 11] = [7, 7, 11]" by simp
  note t = post_bfhl_prime [OF h1 h2 h3, of "\<lambda>q. []"]
  from t have "post_bfhl (\<lambda>q. []) ?cfg (Obj [(str ''prime'', Arr (map number [7, 8, 7, - 3, 11]))])
      = success ?cfg (Arr (map number (filter is_prime [7, 8, 7, - 3, 11])))"
    by blast
  then have a: "post_bfhl (\<lambda>q. []) ?cfg
        (Obj [(str ''prime'', Arr [Num 7, Num 8, Num 7, Num (- 3), Num 11])])
      = \<lparr>status = 200, is_success = True, official_email = Some (str ''dev@example.com''),
         data = Some (Arr [Num 7, Num 7, Num 11]), error = None\<rparr>"
    unfolding q by (simp add: success_def number_def)
  from t have "post_bfhl (\<lambda>q. []) ?cfg
        (Obj [(str ''prime'', Arr [number 2, number 3, number 4, number 5, number 1])])
      = success ?cfg (Arr [number 2, number 3, number 5])"
    by blast
  then have b: "post_bfhl (\<lambda>q. []) ?cfg
        (Obj [(str ''prime'', Arr [Num 2, Num 3, Num 4, Num 5, Num 1])])
      = \<lparr>status = 200, is_success = True, official_email = Some (str ''dev@example.com''),
         data = Some (Arr [Num 2, Num 3, Num 5]), error = None\<rparr>"
    by (simp add: success_def number_def)
  from a b show ?thesis by simp
qed

text \<open>
  Claim C10. For a one-element array \<open>gcdArray\<close> and \<open>lcmArray\<close> return the element itself:
  \<^verbatim>\<open>reduce\<close> without an initial value never calls \<open>gcd\<close> or \<open>lcm2\<close>, so no absolute value
  is taken, and the \<open>hcf\<close> and \<open>lcm\<close> branches of a configured server answer a one-element
  array with that element as data; for \<^verbatim>\<open>{"hcf":[-4]}\<close> the data is \<open>-4\<close>.
\<close>

theorem single_element_unchanged:
  "gcdArray [a] = Inr a \<and> lcmArray [a] = Inr a
   \<and> (truthy_string (OFFICIAL_EMAIL cfg) \<longrightarrow>
        post_bfhl ntoa cfg (Obj [(str ''hcf'', Arr [number a])]) = success cfg (number a)
      \<and> post_bfhl ntoa cfg (Obj [(str ''lcm'', Arr [number a])]) = success cfg (number a)
      \<and> post_bfhl ntoa cfg (Obj [(str ''hcf'', Arr [number (- 4)])]) = success cfg (number (- 4)))"
proof -
  have k: "gcdArray [x] = Inr x" "lcmArray [x] = Inr x" for x
    by (simp_all add: gcdArray_def lcmArray_def)
  have "post_bfhl ntoa cfg (Obj [(str ''hcf'', Arr [number x])]) = success cfg (number x)"
    "post_bfhl ntoa cfg (Obj [(str ''lcm'', Arr [number x])]) = success cfg (number x)"
    if "truthy_string (OFFICIAL_EMAIL cfg)" for x
    using post_bfhl_array(2,3) [OF that, of "[x]" ntoa] k by simp_all
  then show ?thesis using k by blast
qed

theorem single_element_unchanged_witness:
  \<open>gcdArray [- 4] = Inr (- 4) \<and> lcmArray [- 4] = Inr (- 4)
   \<and> post_bfhl (\<lambda>q. []) \<lparr>OFFICIAL_EMAIL = Some (str ''dev@example.com''), genAI = None\<rparr>
        (Obj [(str ''hcf'', Arr [number (- 4)])])
      = \<lparr>status = 200, is_success = True, official_email = Some (str ''dev@example.com''),
         data = Some (number (- 4)), error = None\<rparr>\<close>
proof -
  let ?cfg = "\<lparr>OFFICIAL_EMAIL = Some (str ''dev@example.com''), genAI = None\<rparr>"
  have h1: "truthy_string (OFFICIAL_EMAIL ?cfg)" by (simp add: truthy_string_def str_def)
  from single_element_unchanged [of "- 4" ?cfg "\<lambda>q. []"] h1 show ?thesis
    by (simp add: success_def)
qed



end

